theory Spec2Isabelle
  imports Complex_Main "HOL-Library.Multiset"
begin

section \<open>HDXLinear: the list of discovered vertices\<close>

text \<open>
  The linear structure of \<^verbatim>\<open>hdxjsfuncs.js\<close> (\<^verbatim>\<open>function HDXLinear(type, displayName)\<close>).
  The constructor accepts any type code and only logs an invalid one, so the code
  \<^verbatim>\<open>UNKNOWN\<close> is a possible value of the field.
\<close>

datatype hdxLinearTypes = STACK | QUEUE | RANDOM | PRIORITY_QUEUE | UNKNOWN

text \<open>
  The fields that carry behaviour: the array \<^verbatim>\<open>items\<close>, the two counters and the
  comparator \<^verbatim>\<open>comesBefore\<close>. The display fields (document element, callback, label
  length) only feed \<^verbatim>\<open>redraw\<close>, which writes HTML and is left out.
\<close>

record 'e HDXLinear =
  type :: hdxLinearTypes
  items :: "'e list"
  addCount :: nat
  removeCount :: nat
  comesBefore :: "'e \<Rightarrow> 'e \<Rightarrow> bool"

text \<open>The constructor: an empty array, counters at zero, the default comparator \<^verbatim>\<open>a < b\<close>.\<close>

definition HDXLinear :: "hdxLinearTypes \<Rightarrow> ('e::ord) HDXLinear" where
  "HDXLinear t = \<lparr> type = t, items = [], addCount = 0, removeCount = 0,
     comesBefore = (\<lambda>a b. a < b) \<rparr>"

text \<open>
  A container with a comparator of one's own: the constructor followed by
  \<^verbatim>\<open>setComparator\<close>, as \<^verbatim>\<open>prepToStart\<close> does it. Written without the default
  comparator so that the element type needs no order.
\<close>

definition newHDXLinear :: "hdxLinearTypes \<Rightarrow> ('e \<Rightarrow> 'e \<Rightarrow> bool) \<Rightarrow> 'e HDXLinear" where
  "newHDXLinear t c = \<lparr> type = t, items = [], addCount = 0, removeCount = 0,
     comesBefore = c \<rparr>"

definition setComparator :: "('e \<Rightarrow> 'e \<Rightarrow> bool) \<Rightarrow> 'e HDXLinear \<Rightarrow> 'e HDXLinear" where
  "setComparator c l = l\<lparr> comesBefore := c \<rparr>"

text \<open>
  The scan of \<^verbatim>\<open>add\<close>:
  \<^verbatim>\<open>let i = 0; while ((i < this.items.length) && this.comesBefore(e, this.items[i])) i++;\<close>
  \<open>addScan cb e xs i\<close> is the final value of \<^verbatim>\<open>i\<close> when the loop is entered with
  \<open>xs\<close> the part of the array from index \<open>i\<close> on.
\<close>

fun addScan :: "('e \<Rightarrow> 'e \<Rightarrow> bool) \<Rightarrow> 'e \<Rightarrow> 'e list \<Rightarrow> nat \<Rightarrow> nat" where
  "addScan cb e [] i = i"
| "addScan cb e (x # xs) i = (if cb e x then addScan cb e xs (i + 1) else i)"

text \<open>\<^verbatim>\<open>items.splice(i, 0, e)\<close>; an index beyond the end inserts at the end.\<close>

definition splice0 :: "nat \<Rightarrow> 'e \<Rightarrow> 'e list \<Rightarrow> 'e list" where
  "splice0 i e xs = take i xs @ e # drop i xs"

text \<open>\<^verbatim>\<open>items.splice(index, 1)\<close>; an index beyond the end removes nothing.\<close>

definition splice1 :: "nat \<Rightarrow> 'e list \<Rightarrow> 'e list" where
  "splice1 i xs = take i xs @ drop (i + 1) xs"

definition add :: "'e \<Rightarrow> 'e HDXLinear \<Rightarrow> 'e HDXLinear" where
  "add e l =
     (let its = (if type l = PRIORITY_QUEUE \<and> length (items l) > 0
                 then splice0 (addScan (comesBefore l) e (items l) 0) e (items l)
                 else items l @ [e])
      in l\<lparr> items := its, addCount := addCount l + 1 \<rparr>)"

text \<open>
  \<^verbatim>\<open>remove\<close>. JavaScript's \<^verbatim>\<open>pop\<close>, \<^verbatim>\<open>shift\<close> and an index read beyond the end all
  give \<^verbatim>\<open>undefined\<close> on an empty array, and a type that matches no case leaves
  \<^verbatim>\<open>retval\<close> at \<^verbatim>\<open>null\<close>; both are \<open>None\<close> here. The function has no \<^verbatim>\<open>throw\<close>, so
  the model has no error result. \<^verbatim>\<open>Math.random()\<close> is an argument: the fraction
  \<open>p / q\<close> as the pair \<open>(p, q)\<close>, so that
  \<^verbatim>\<open>Math.floor(Math.random() * this.items.length)\<close> is \<open>(p * length) div q\<close>
  (rounding of floating point is not modelled).
\<close>

definition randomIndex :: "nat \<times> nat \<Rightarrow> nat \<Rightarrow> nat" where
  "randomIndex r n = (fst r * n) div snd r"

definition remove :: "nat \<times> nat \<Rightarrow> 'e HDXLinear \<Rightarrow> 'e option \<times> 'e HDXLinear" where
  "remove r l =
     (let l1 = l\<lparr> removeCount := removeCount l + 1 \<rparr> in
      case type l of
        STACK \<Rightarrow>
          (if items l = [] then (None, l1)
           else (Some (last (items l)), l1\<lparr> items := butlast (items l) \<rparr>))
      | PRIORITY_QUEUE \<Rightarrow>
          (if items l = [] then (None, l1)
           else (Some (last (items l)), l1\<lparr> items := butlast (items l) \<rparr>))
      | QUEUE \<Rightarrow>
          (case items l of [] \<Rightarrow> (None, l1)
           | x # xs \<Rightarrow> (Some x, l1\<lparr> items := xs \<rparr>))
      | RANDOM \<Rightarrow>
          (let index = randomIndex r (length (items l)) in
           (if index < length (items l) then Some (items l ! index) else None,
            l1\<lparr> items := splice1 index (items l) \<rparr>))
      | UNKNOWN \<Rightarrow> (None, l1))"

definition isEmpty :: "'e HDXLinear \<Rightarrow> bool" where
  "isEmpty l \<longleftrightarrow> length (items l) = 0"


text \<open>
  \<^verbatim>\<open>containsFieldMatching(field, value)\<close>, with the field read given as a function.
\<close>

definition containsFieldMatching :: "('e \<Rightarrow> 'f) \<Rightarrow> 'f \<Rightarrow> 'e HDXLinear \<Rightarrow> bool" where
  "containsFieldMatching field v l \<longleftrightarrow> (\<exists>x \<in> set (items l). field x = v)"


section \<open>Graph data and LDV entries\<close>

text \<open>
  \<^verbatim>\<open>waypoints[v].edgeList\<close> holds the \<^verbatim>\<open>GraphEdge\<close> objects incident to \<^verbatim>\<open>v\<close>, and
  \<^verbatim>\<open>graphEdges\<close> holds every edge; \<^verbatim>\<open>edgeListIndex\<close> is an edge's index in
  \<^verbatim>\<open>graphEdges\<close>. Labels and coordinates are only displayed and are left out.
  \<^verbatim>\<open>edgeLengthInMiles\<close> is defined outside this file: it is a parameter of the graph.
  The array \<^verbatim>\<open>connections\<close> (one map polyline for each edge) has the length of
  \<^verbatim>\<open>graphEdges\<close>.
\<close>

record GraphEdge =
  v1 :: nat
  v2 :: nat
  edgeListIndex :: nat

record graph =
  waypoints :: "GraphEdge list list"
  graphEdges :: "GraphEdge list"
  edgeLengthInMiles :: "GraphEdge \<Rightarrow> real"

datatype error = TypeError

text \<open>
  An LDV entry. The source writes \<^verbatim>\<open>-1\<close> for "no edge" and "no source vertex";
  that is \<open>None\<close> here. The constructor reads \<^verbatim>\<open>graphEdges[connection].v1\<close>, a
  \<^verbatim>\<open>TypeError\<close> when the index is out of range.
\<close>

record LDVEntry =
  vIndex :: nat
  val :: real
  connection :: "nat option"
  fromVIndex :: "nat option"

definition LDVEntry :: "graph \<Rightarrow> nat \<Rightarrow> real \<Rightarrow> nat option \<Rightarrow> error + LDVEntry" where
  "LDVEntry g v x c =
     (case c of
        None \<Rightarrow> Inr \<lparr> vIndex = v, val = x, connection = None, fromVIndex = None \<rparr>
      | Some k \<Rightarrow>
          if k < length (graphEdges g)
          then Inr \<lparr> vIndex = v, val = x, connection = Some k,
                     fromVIndex = Some (if v1 (graphEdges g ! k) = v
                                        then v2 (graphEdges g ! k)
                                        else v1 (graphEdges g ! k)) \<rparr>
          else Inl TypeError)"

text \<open>\<^verbatim>\<open>getAdjacentPoints(pointIndex)\<close>, given the edge list of the vertex.\<close>

definition otherEnd :: "nat \<Rightarrow> GraphEdge \<Rightarrow> nat" where
  "otherEnd v e = (if v1 e = v then v2 e else v1 e)"

definition getAdjacentPoints :: "graph \<Rightarrow> nat \<Rightarrow> error + nat list" where
  "getAdjacentPoints g v =
     (if v < length (waypoints g) then Inr (map (otherEnd v) (waypoints g ! v))
      else Inl TypeError)"

text \<open>
  The boolean arrays. A read beyond the end gives \<^verbatim>\<open>undefined\<close>, which every test
  in the source treats as false; a write beyond the end extends the array, the
  holes reading as \<^verbatim>\<open>undefined\<close>.
\<close>

definition arrayGet :: "bool list \<Rightarrow> nat \<Rightarrow> bool" where
  "arrayGet xs i \<longleftrightarrow> i < length xs \<and> xs ! i"

definition arraySetTrue :: "bool list \<Rightarrow> nat \<Rightarrow> bool list" where
  "arraySetTrue xs i =
     (if i < length xs then xs[i := True]
      else xs @ replicate (i - length xs) False @ [True])"


section \<open>The controller hdxAV\<close>

datatype hdxStates =
  NO_DATA | GRAPH_LOADED | WPT_LOADED | NMP_LOADED | WPL_LOADED | PTH_LOADED
| AV_SELECTED | AV_RUNNING | AV_PAUSED | AV_COMPLETE

text \<open>
  The fields of \<^verbatim>\<open>hdxAV\<close> that the scheduler reads or writes. \<open>alerts\<close> collects the
  texts passed to \<^verbatim>\<open>alert\<close>; \<open>timeouts\<close> counts the callbacks
  \<^verbatim>\<open>setTimeout(function() { hdxAV.nextStep(thisAV) }, hdxAV.delay)\<close> that are pending;
  \<open>mathRandom\<close> and \<open>randomCalls\<close> stand for \<^verbatim>\<open>Math.random\<close>: the \<open>k\<close>-th
  call returns the fraction \<open>mathRandom k\<close>. Pseudocode highlighting, execution
  counts and the status line only drive the display and are left out. The running
  algorithm (\<^verbatim>\<open>thisAV\<close>) is the extension of this record.
\<close>

record hdxAV =
  status :: hdxStates
  delay :: int
  traceActions :: bool
  iterationDone :: bool
  nextAction :: string
  alerts :: "string list"
  timeouts :: nat
  mathRandom :: "nat \<Rightarrow> nat \<times> nat"
  randomCalls :: nat

definition setStatus :: "hdxStates \<Rightarrow> 'a hdxAV_scheme \<Rightarrow> 'a hdxAV_scheme" where
  "setStatus newStatus s = (if status s = newStatus then s else s\<lparr> status := newStatus \<rparr>)"

definition paused :: "'a hdxAV_scheme \<Rightarrow> bool" where
  "paused s \<longleftrightarrow> status s = AV_PAUSED"

text \<open>
  An action is a label and its \<^verbatim>\<open>code\<close>. The code either completes with a new state
  or throws, leaving the state as it was at the throw.
\<close>

type_synonym 's result = "(error \<times> 's) + 's"

type_synonym 's avAction = "string \<times> ('s \<Rightarrow> 's result)"

text \<open>The search loop of \<^verbatim>\<open>oneAction\<close>: the first action with the label.\<close>

fun lookupAction :: "string \<Rightarrow> 's avAction list \<Rightarrow> 's avAction option" where
  "lookupAction l [] = None"
| "lookupAction l (a # as) = (if l = fst a then Some a else lookupAction l as)"

text \<open>
  \<^verbatim>\<open>oneAction\<close>. When no action has the label, the source alerts and sets the status
  to paused, then goes on to \<^verbatim>\<open>currentAction.code(thisAV)\<close> with \<^verbatim>\<open>currentAction\<close>
  still \<^verbatim>\<open>null\<close>, which throws.
\<close>

definition oneAction :: "('a hdxAV_scheme) avAction list \<Rightarrow> 'a hdxAV_scheme \<Rightarrow> ('a hdxAV_scheme) result" where
  "oneAction avActions s =
     (case lookupAction (nextAction s) avActions of
        None \<Rightarrow>
          Inl (TypeError,
               setStatus AV_PAUSED
                 (s\<lparr> alerts := alerts s @ [''HDX Internal error: bad AV action: '' @ nextAction s] \<rparr>))
      | Some currentAction \<Rightarrow> snd currentAction s)"

text \<open>
  \<^verbatim>\<open>oneIteration\<close>: \<^verbatim>\<open>while (!hdxAV.iterationDone) hdxAV.oneAction(thisAV)\<close>. The loop
  need not end, so the result is an option and \<open>None\<close> is a run that never returns.
\<close>

partial_function (option) oneIterationLoop ::
  "('a hdxAV_scheme) avAction list \<Rightarrow> 'a hdxAV_scheme \<Rightarrow> ('a hdxAV_scheme) result option" where
  "oneIterationLoop avActions s =
     (if iterationDone s then Some (Inr s)
      else case oneAction avActions s of
             Inl e \<Rightarrow> Some (Inl e)
           | Inr s' \<Rightarrow> oneIterationLoop avActions s')"

definition oneIteration ::
  "('a hdxAV_scheme) avAction list \<Rightarrow> 'a hdxAV_scheme \<Rightarrow> ('a hdxAV_scheme) result option" where
  "oneIteration avActions s = oneIterationLoop avActions (s\<lparr> iterationDone := False \<rparr>)"

text \<open>
  The run-to-completion loop of \<^verbatim>\<open>nextStep\<close>:
  \<^verbatim>\<open>while (hdxAV.nextAction != "DONE") hdxAV.oneIteration(thisAV)\<close>.
\<close>

partial_function (option) runToCompletion ::
  "('a hdxAV_scheme) avAction list \<Rightarrow> 'a hdxAV_scheme \<Rightarrow> ('a hdxAV_scheme) result option" where
  "runToCompletion avActions s =
     (if nextAction s = ''DONE'' then Some (Inr s)
      else case oneIteration avActions s of
             None \<Rightarrow> None
           | Some (Inl e) \<Rightarrow> Some (Inl e)
           | Some (Inr s') \<Rightarrow> runToCompletion avActions s')"

text \<open>\<^verbatim>\<open>nextStep\<close>. Setting the timeout adds one pending callback.\<close>

definition nextStep ::
  "('a hdxAV_scheme) avAction list \<Rightarrow> 'a hdxAV_scheme \<Rightarrow> ('a hdxAV_scheme) result option" where
  "nextStep avActions s =
     (if paused s then Some (Inr s)
      else if delay s = 0 then runToCompletion avActions s
      else
        let s1 = (if delay s = - 1 then setStatus AV_PAUSED s else s) in
        case (if traceActions s1 then Some (oneAction avActions s1)
              else oneIteration avActions s1) of
          None \<Rightarrow> None
        | Some (Inl e) \<Rightarrow> Some (Inl e)
        | Some (Inr s2) \<Rightarrow>
            Some (Inr (if nextAction s2 \<noteq> ''DONE''
                       then s2\<lparr> timeouts := timeouts s2 + 1 \<rparr>
                       else setStatus AV_COMPLETE s2)))"

text \<open>
  The browser's timer queue, with nothing else happening in between: as long as a
  callback is pending, one fires and calls \<^verbatim>\<open>nextStep\<close>. An exception thrown inside a
  callback ends that callback only.
\<close>

partial_function (option) fireTimeouts ::
  "('a hdxAV_scheme) avAction list \<Rightarrow> 'a hdxAV_scheme \<Rightarrow> ('a hdxAV_scheme) option" where
  "fireTimeouts avActions s =
     (if timeouts s = 0 then Some s
      else case nextStep avActions (s\<lparr> timeouts := timeouts s - 1 \<rparr>) of
             None \<Rightarrow> None
           | Some (Inl e) \<Rightarrow> fireTimeouts avActions (snd e)
           | Some (Inr s') \<Rightarrow> fireTimeouts avActions s')"



section \<open>The common traversal and spanning tree algorithm\<close>

datatype stoppingCondition = StopAtEnd | FindReachable | FindAll

datatype stoppedBecause =
  StillRunning | FoundPath | SearchFailed | FoundComponent | FoundAllComponents

text \<open>
  The visual settings that the actions pass to the map and the tables, by name.
  \<^verbatim>\<open>updateMarkerAndTable\<close> and \<^verbatim>\<open>updatePolylineAndTable\<close> belong to the display;
  the model records each call, in order, in the field \<open>marks\<close>.
\<close>

datatype visualSettings =
  vs_visiting | vs_discarded | vs_discardedOnDiscovery | vs_startVertex | vs_endVertex
| vs_spanningTree | vs_discovered | vs_addedEarlier | vs_completedComponent nat
| vs_foundPath

datatype mark = Marker nat visualSettings | Polyline nat visualSettings

record neighbor =
  to :: nat
  via :: nat

text \<open>
  The state of \<^verbatim>\<open>hdxTraversalsSpanningAVCommon\<close>, as an extension of the controller's
  record. \<open>startPoint\<close> and \<open>endPoint\<close> are the values of the two vertex inputs
  of the page, \<open>foundTable\<close> the rows that \<^verbatim>\<open>addLDVEntryToFoundTable\<close> has appended.
  \<^verbatim>\<open>endingVertex\<close> starts at \<^verbatim>\<open>-1\<close> (\<open>None\<close>) and is assigned only when stopping
  at an end vertex. \<^verbatim>\<open>visiting\<close> and \<^verbatim>\<open>nextNeighbor\<close> are \<open>None\<close> when the source
  has \<^verbatim>\<open>null\<close> or \<^verbatim>\<open>undefined\<close> there.
\<close>

record traversal = hdxAV +
  ldv :: "LDVEntry HDXLinear"
  addedV :: "bool list"
  discoveredV :: "bool list"
  discoveredE :: "bool list"
  stoppingCondition :: stoppingCondition
  stoppedBecause :: stoppedBecause
  componentVList :: "nat list"
  componentEList :: "nat list"
  startingVertex :: nat
  endingVertex :: "nat option"
  startUnaddedVSearch :: nat
  visiting :: "LDVEntry option"
  neighborsToLoop :: "neighbor list"
  nextNeighbor :: "neighbor option"
  numVSpanningTree :: int
  numESpanningTree :: int
  numVUndiscovered :: int
  numEUndiscovered :: int
  numEDiscardedOnDiscovery :: int
  numEDiscardedOnRemoval :: int
  componentNum :: nat
  treeEdges :: "LDVEntry list"
  allComponentsDone :: bool
  foundTable :: "LDVEntry list"
  marks :: "mark list"
  startPoint :: nat
  endPoint :: nat

definition updateMarkerAndTable :: "nat \<Rightarrow> visualSettings \<Rightarrow> traversal \<Rightarrow> traversal" where
  "updateMarkerAndTable waypointNum vs s = s\<lparr> marks := marks s @ [Marker waypointNum vs] \<rparr>"

definition updatePolylineAndTable :: "nat \<Rightarrow> visualSettings \<Rightarrow> traversal \<Rightarrow> traversal" where
  "updatePolylineAndTable edgeNum vs s = s\<lparr> marks := marks s @ [Polyline edgeNum vs] \<rparr>"

text \<open>
  \<^verbatim>\<open>formatLDVEntry\<close> and \<^verbatim>\<open>addLDVEntryToFoundTable\<close> read
  \<^verbatim>\<open>waypoints[item.vIndex].label\<close> and, for an entry with an edge,
  \<^verbatim>\<open>graphEdges[item.connection].label\<close>: they throw when an index is out of range.
  \<open>entryReadable\<close> says that these reads succeed.
\<close>

definition entryReadable :: "graph \<Rightarrow> LDVEntry \<Rightarrow> bool" where
  "entryReadable g item \<longleftrightarrow>
     vIndex item < length (waypoints g) \<and>
     (case connection item of None \<Rightarrow> True | Some c \<Rightarrow> c < length (graphEdges g))"

text \<open>
  The branch that ends several actions:
  \<^verbatim>\<open>if (thisAV.stoppingCondition == "StopAtEnd") hdxAV.nextAction = "checkEndAdded";
  else hdxAV.nextAction = "checkComponentDone";\<close>
  and, in the loop over the neighbours, first
  \<^verbatim>\<open>if (thisAV.neighborsToLoop.length > 0) hdxAV.nextAction = "checkNeighborsLoopIf";\<close>
\<close>

definition loopTop :: "traversal \<Rightarrow> string" where
  "loopTop s = (if stoppingCondition s = StopAtEnd then ''checkEndAdded''
                else ''checkComponentDone'')"

definition nextNeighborAction :: "traversal \<Rightarrow> string" where
  "nextNeighborAction s = (if length (neighborsToLoop s) > 0 then ''checkNeighborsLoopIf''
                           else loopTop s)"

subsection \<open>The actions\<close>

text \<open>
  \<^verbatim>\<open>START\<close>. \<^verbatim>\<open>updateMarkerAndTable\<close> reads \<^verbatim>\<open>markers[waypointNum]\<close>, and there is one
  marker for each waypoint: for a vertex input beyond the waypoints the call throws.
  \<^verbatim>\<open>START\<close> makes the call for the end vertex and for the start vertex before it
  has read anything else at these indices, so both throws are branches here; the
  state at the throw has what \<^verbatim>\<open>START\<close> has assigned up to the call. The other
  actions make the call for the vertex of an entry that has been formatted for the
  display, or for a neighbour taken from the edge lists.
\<close>

definition START :: "graph \<Rightarrow> traversal \<Rightarrow> traversal result" where
  "START g s =
     (let s1 = s\<lparr> addedV := replicate (length (waypoints g)) False,
                  discoveredV := replicate (length (waypoints g)) False,
                  discoveredE := replicate (length (graphEdges g)) False,
                  numVSpanningTree := 0,
                  numESpanningTree := 0,
                  numVUndiscovered := int (length (waypoints g)),
                  numEUndiscovered := int (length (graphEdges g)),
                  numEDiscardedOnDiscovery := 0,
                  numEDiscardedOnRemoval := 0,
                  componentNum := 0,
                  startUnaddedVSearch := 0,
                  startingVertex := startPoint s \<rparr>;
          s2 = (if stoppingCondition s1 = StopAtEnd
                then s1\<lparr> endingVertex := Some (endPoint s1) \<rparr>
                else s1)
      in if stoppingCondition s2 = StopAtEnd \<and> \<not> endPoint s2 < length (waypoints g)
         then Inl (TypeError, s2)
         else
           let s3 = (if stoppingCondition s2 = StopAtEnd
                     then updateMarkerAndTable (endPoint s2) vs_endVertex s2
                     else s2);
               s4 = s3\<lparr> discoveredV := arraySetTrue (discoveredV s3) (startingVertex s3),
                        numVUndiscovered := numVUndiscovered s3 - 1 \<rparr>
           in if \<not> startingVertex s4 < length (waypoints g)
              then Inl (TypeError, s4)
              else
                let s5 = updateMarkerAndTable (startingVertex s4) vs_discovered s4
                in case LDVEntry g (startingVertex s5) 0 None of
                     Inl e \<Rightarrow> Inl (e, s5)
                   | Inr entry \<Rightarrow>
                       let s6 = s5\<lparr> ldv := add entry (ldv s5) \<rparr>;
                           s7 = (if stoppingCondition s6 = StopAtEnd
                                 then s6\<lparr> nextAction := ''checkEndAdded'' \<rparr>
                                 else if stoppingCondition s6 = FindReachable
                                 then s6\<lparr> nextAction := ''checkComponentDone'' \<rparr>
                                 else s6\<lparr> allComponentsDone := False,
                                          nextAction := ''checkAllComponentsDone'' \<rparr>)
                       in Inr (s7\<lparr> iterationDone := True \<rparr>))"

definition checkAllComponentsDone :: "traversal \<Rightarrow> traversal result" where
  "checkAllComponentsDone s =
     Inr ((if allComponentsDone s
           then s\<lparr> stoppedBecause := FoundAllComponents, nextAction := ''cleanup'' \<rparr>
           else s\<lparr> nextAction := ''checkComponentDone'' \<rparr>)
          \<lparr> iterationDone := True \<rparr>)"

definition checkComponentDone :: "traversal \<Rightarrow> traversal result" where
  "checkComponentDone s =
     Inr ((if isEmpty (ldv s)
           then (if stoppingCondition s = FindAll
                 then s\<lparr> nextAction := ''finalizeComponent'' \<rparr>
                 else s\<lparr> stoppedBecause := FoundComponent, nextAction := ''cleanup'' \<rparr>)
           else s\<lparr> nextAction := ''getPlaceFromLDV'' \<rparr>)
          \<lparr> iterationDone := True \<rparr>)"

text \<open>\<^verbatim>\<open>thisAV.addedV[thisAV.endingVertex]\<close> with the index \<^verbatim>\<open>-1\<close> reads \<^verbatim>\<open>undefined\<close>.\<close>

definition checkEndAdded :: "traversal \<Rightarrow> traversal result" where
  "checkEndAdded s =
     Inr ((if (case endingVertex s of None \<Rightarrow> False | Some e \<Rightarrow> arrayGet (addedV s) e)
           then s\<lparr> stoppedBecause := FoundPath, nextAction := ''cleanup'' \<rparr>
           else s\<lparr> nextAction := ''checkLDVEmpty'' \<rparr>)
          \<lparr> iterationDone := True \<rparr>)"

definition checkLDVEmpty :: "traversal \<Rightarrow> traversal result" where
  "checkLDVEmpty s =
     Inr (if isEmpty (ldv s) then s\<lparr> nextAction := ''LDVEmpty'' \<rparr>
          else s\<lparr> nextAction := ''getPlaceFromLDV'' \<rparr>)"

definition LDVEmpty :: "traversal \<Rightarrow> traversal result" where
  "LDVEmpty s = Inr (s\<lparr> stoppedBecause := SearchFailed, nextAction := ''cleanup'' \<rparr>)"

text \<open>
  \<^verbatim>\<open>Math.random\<close> is called only by the removal from a list of type \<^verbatim>\<open>RANDOM\<close>.
  The removed entry is formatted for the display right away, which throws when
  \<^verbatim>\<open>remove\<close> has returned \<^verbatim>\<open>undefined\<close>.
\<close>

definition getPlaceFromLDV :: "graph \<Rightarrow> traversal \<Rightarrow> traversal result" where
  "getPlaceFromLDV g s =
     (let (retval, l) = remove (mathRandom s (randomCalls s)) (ldv s);
          s1 = s\<lparr> ldv := l, visiting := retval,
                  randomCalls := (if type (ldv s) = RANDOM then randomCalls s + 1
                                  else randomCalls s) \<rparr>
      in case retval of
           None \<Rightarrow> Inl (TypeError, s1)
         | Some item \<Rightarrow>
             if \<not> entryReadable g item then Inl (TypeError, s1)
             else
               let s2 = updateMarkerAndTable (vIndex item) vs_visiting s1;
                   s3 = (case connection item of None \<Rightarrow> s2
                         | Some c \<Rightarrow> updatePolylineAndTable c vs_visiting s2)
               in Inr (s3\<lparr> nextAction := ''checkAdded'' \<rparr>))"

definition checkAdded :: "traversal \<Rightarrow> traversal result" where
  "checkAdded s =
     (case visiting s of
        None \<Rightarrow> Inl (TypeError, s)
      | Some item \<Rightarrow>
          Inr (if arrayGet (addedV s) (vIndex item) then s\<lparr> nextAction := ''wasAdded'' \<rparr>
               else s\<lparr> nextAction := ''wasNotAdded'' \<rparr>))"

definition wasAdded :: "traversal \<Rightarrow> traversal result" where
  "wasAdded s =
     (let s1 = s\<lparr> numEDiscardedOnRemoval := numEDiscardedOnRemoval s + 1 \<rparr> in
      case visiting s1 of
        None \<Rightarrow> Inl (TypeError, s1)
      | Some item \<Rightarrow>
          let s2 = (if vIndex item = startingVertex s1
                    then updateMarkerAndTable (vIndex item) vs_startVertex s1
                    else if Some (vIndex item) = endingVertex s1
                    then updateMarkerAndTable (vIndex item) vs_endVertex s1
                    else if containsFieldMatching vIndex (vIndex item) (ldv s1)
                    then updateMarkerAndTable (vIndex item) vs_addedEarlier s1
                    else updateMarkerAndTable (vIndex item) vs_discarded s1);
              s3 = (case connection item of None \<Rightarrow> s2
                    | Some c \<Rightarrow> updateMarkerAndTable (vIndex item) vs_discarded
                                 (updatePolylineAndTable c vs_discarded s2))
          in Inr (s3\<lparr> nextAction := loopTop s3 \<rparr>))"


text \<open>
  \<^verbatim>\<open>addLDVEntryToFoundTable\<close> also reads \<^verbatim>\<open>waypoints[item.fromVIndex].label\<close> for an
  entry with an edge.
\<close>

definition foundTableReadable :: "graph \<Rightarrow> LDVEntry \<Rightarrow> bool" where
  "foundTableReadable g item \<longleftrightarrow>
     entryReadable g item \<and>
     (case fromVIndex item of None \<Rightarrow> True | Some f \<Rightarrow> f < length (waypoints g))"

definition wasNotAdded :: "graph \<Rightarrow> traversal \<Rightarrow> traversal result" where
  "wasNotAdded g s =
     (case visiting s of
        None \<Rightarrow> Inl (TypeError, s)
      | Some item \<Rightarrow>
          let s1 = s\<lparr> addedV := arraySetTrue (addedV s) (vIndex item) \<rparr>;
              s2 = (if vIndex item = startingVertex s1
                    then updateMarkerAndTable (vIndex item) vs_startVertex s1
                    else if Some (vIndex item) = endingVertex s1
                    then updateMarkerAndTable (vIndex item) vs_endVertex s1
                    else updateMarkerAndTable (vIndex item) vs_spanningTree s1);
              s3 = s2\<lparr> componentVList := componentVList s2 @ [vIndex item],
                       numVSpanningTree := numVSpanningTree s2 + 1 \<rparr>;
              s4 = (case connection item of None \<Rightarrow> s3
                    | Some c \<Rightarrow>
                        updatePolylineAndTable c vs_spanningTree
                          (s3\<lparr> numESpanningTree := numESpanningTree s3 + 1,
                               componentEList := componentEList s3 @ [c] \<rparr>))
          in if \<not> foundTableReadable g item then Inl (TypeError, s4)
             else
               let s5 = s4\<lparr> foundTable := foundTable s4 @ [item] \<rparr>;
                   s6 = (if stoppingCondition s5 = StopAtEnd
                         then s5\<lparr> treeEdges := treeEdges s5 @ [item] \<rparr> else s5)
               in Inr (s6\<lparr> nextAction := ''checkNeighborsLoopTop'' \<rparr>))"

text \<open>
  The loop of \<^verbatim>\<open>checkNeighborsLoopTop\<close> pushes, for each edge of the vertex's edge
  list in order, the far vertex and the edge number, unless the edge number is the
  one of the entry being visited.
\<close>

definition checkNeighborsLoopTop :: "graph \<Rightarrow> traversal \<Rightarrow> traversal result" where
  "checkNeighborsLoopTop g s =
     (case visiting s of
        None \<Rightarrow> Inl (TypeError, s)
      | Some item \<Rightarrow>
          (case getAdjacentPoints g (vIndex item) of
             Inl e \<Rightarrow> Inl (e, s)
           | Inr neighbors \<Rightarrow>
               let edgeList = waypoints g ! vIndex item;
                   s1 = s\<lparr> neighborsToLoop := neighborsToLoop s @
                          map (\<lambda>(n, e). \<lparr> to = n, via = edgeListIndex e \<rparr>)
                            (filter (\<lambda>(n, e). Some (edgeListIndex e) \<noteq> connection item)
                               (zip neighbors edgeList)) \<rparr>
               in Inr (s1\<lparr> nextAction := nextNeighborAction s1 \<rparr>)))"

definition checkNeighborsLoopIf :: "traversal \<Rightarrow> traversal result" where
  "checkNeighborsLoopIf s =
     (if neighborsToLoop s = [] then Inl (TypeError, s\<lparr> nextNeighbor := None \<rparr>)
      else
        let n = last (neighborsToLoop s);
            s1 = s\<lparr> nextNeighbor := Some n, neighborsToLoop := butlast (neighborsToLoop s) \<rparr>
        in Inr (if arrayGet (addedV s1) (to n)
                then s1\<lparr> nextAction := ''checkNeighborsLoopIfTrue'' \<rparr>
                else s1\<lparr> nextAction := ''checkNeighborsLoopIfFalse'' \<rparr>))"

definition checkNeighborsLoopIfTrue :: "traversal \<Rightarrow> traversal result" where
  "checkNeighborsLoopIfTrue s =
     (let s1 = s\<lparr> numEDiscardedOnDiscovery := numEDiscardedOnDiscovery s + 1 \<rparr> in
      case nextNeighbor s1 of
        None \<Rightarrow> Inl (TypeError, s1)
      | Some n \<Rightarrow>
          let s2 = (if \<not> arrayGet (discoveredE s1) (via n)
                    then s1\<lparr> numEUndiscovered := numEUndiscovered s1 - 1,
                             discoveredE := arraySetTrue (discoveredE s1) (via n) \<rparr>
                    else s1);
              s3 = updatePolylineAndTable (via n) vs_discardedOnDiscovery s2
          in Inr (s3\<lparr> nextAction := nextNeighborAction s3 \<rparr>))"

text \<open>
  \<open>valForLDVEntry\<close> is the function of that name of the algorithm that runs. The
  entry being visited is read as \<^verbatim>\<open>oldEntry.val\<close> by each of them.
\<close>

definition checkNeighborsLoopIfFalse ::
  "graph \<Rightarrow> (graph \<Rightarrow> LDVEntry \<Rightarrow> neighbor \<Rightarrow> real) \<Rightarrow> traversal \<Rightarrow> traversal result" where
  "checkNeighborsLoopIfFalse g valForLDVEntry s =
     (case nextNeighbor s of
        None \<Rightarrow> Inl (TypeError, s)
      | Some n \<Rightarrow>
          let s1 = (if \<not> arrayGet (discoveredV s) (to n)
                    then s\<lparr> numVUndiscovered := numVUndiscovered s - 1,
                            discoveredV := arraySetTrue (discoveredV s) (to n) \<rparr>
                    else s);
              s2 = s1\<lparr> numEUndiscovered := numEUndiscovered s1 - 1,
                       discoveredE := arraySetTrue (discoveredE s1) (via n) \<rparr>
          in (case visiting s2 of
                None \<Rightarrow> Inl (TypeError, s2)
              | Some item \<Rightarrow>
                  (case LDVEntry g (to n) (valForLDVEntry g item n) (Some (via n)) of
                     Inl e \<Rightarrow> Inl (e, s2)
                   | Inr entry \<Rightarrow>
                       let s3 = s2\<lparr> ldv := add entry (ldv s2) \<rparr>;
                           s4 = (if endingVertex s3 = Some (to n)
                                 then updateMarkerAndTable (to n) vs_endVertex s3
                                 else updateMarkerAndTable (to n) vs_discovered s3);
                           s5 = updatePolylineAndTable (via n) vs_discovered s4
                       in Inr (s5\<lparr> nextAction := nextNeighborAction s5 \<rparr>))))"

text \<open>
  \<^verbatim>\<open>finalizeComponent\<close> colours the component; beyond the twenty colours of
  \<^verbatim>\<open>componentColors\<close> it draws a colour with \<^verbatim>\<open>Math.random\<close>.
\<close>

definition finalizeComponent :: "traversal \<Rightarrow> traversal result" where
  "finalizeComponent s =
     (let s1 = (if componentNum s < 20 then s
                else s\<lparr> randomCalls := randomCalls s + 1 \<rparr>);
          vs = vs_completedComponent (componentNum s1);
          s2 = fold (\<lambda>v. updateMarkerAndTable v vs) (componentVList s1) s1;
          s3 = fold (\<lambda>e. updatePolylineAndTable e vs) (componentEList s2) s2
      in Inr (s3\<lparr> nextAction := ''checkAnyUnadded'' \<rparr>))"

definition checkAnyUnadded :: "graph \<Rightarrow> traversal \<Rightarrow> traversal result" where
  "checkAnyUnadded g s =
     Inr (if int (length (waypoints g)) \<noteq> numVSpanningTree s
          then s\<lparr> nextAction := ''startNewComponent'' \<rparr>
          else s\<lparr> nextAction := ''doneToTrue'' \<rparr>)"

text \<open>
  \<^verbatim>\<open>while (thisAV.addedV[thisAV.startUnaddedVSearch]) thisAV.startUnaddedVSearch++;\<close>
  The loop ends at the latest at the end of the array, where the read is
  \<^verbatim>\<open>undefined\<close>.
\<close>

function unaddedVSearch :: "bool list \<Rightarrow> nat \<Rightarrow> nat" where
  "unaddedVSearch xs i = (if arrayGet xs i then unaddedVSearch xs (i + 1) else i)"
  by pat_completeness auto
termination
  by (relation "measure (\<lambda>(xs, i). length xs - i)") (auto simp: arrayGet_def)

declare unaddedVSearch.simps [simp del]

definition startNewComponent :: "graph \<Rightarrow> traversal \<Rightarrow> traversal result" where
  "startNewComponent g s =
     (let s1 = s\<lparr> componentVList := [], componentEList := [],
                  componentNum := componentNum s + 1 \<rparr>;
          s2 = s1\<lparr> startUnaddedVSearch := unaddedVSearch (addedV s1) (startUnaddedVSearch s1) \<rparr>;
          s3 = updateMarkerAndTable (startUnaddedVSearch s2) vs_discovered
                 (s2\<lparr> discoveredV := arraySetTrue (discoveredV s2) (startUnaddedVSearch s2),
                      numVUndiscovered := numVUndiscovered s2 - 1 \<rparr>)
      in case LDVEntry g (startUnaddedVSearch s3) 0 None of
           Inl e \<Rightarrow> Inl (e, s3)
         | Inr entry \<Rightarrow>
             Inr (s3\<lparr> ldv := add entry (ldv s3), iterationDone := True,
                      nextAction := ''checkAllComponentsDone'' \<rparr>))"

definition doneToTrue :: "traversal \<Rightarrow> traversal result" where
  "doneToTrue s =
     Inr (s\<lparr> allComponentsDone := True, nextAction := ''checkAllComponentsDone'' \<rparr>)"

text \<open>
  The walk of \<^verbatim>\<open>cleanup\<close> from the end vertex back to the start vertex.
  \<open>es\<close> is \<^verbatim>\<open>treeEdges\<close> from index \<^verbatim>\<open>plIndex\<close> down to index 0, so that the inner
  loop (\<^verbatim>\<open>plIndex--\<close> while the entry is not the one of \<^verbatim>\<open>place\<close>) and the
  \<^verbatim>\<open>plIndex--\<close> of the outer loop both move to the tail of \<open>es\<close>. Reading
  \<^verbatim>\<open>treeEdge.vIndex\<close> below index 0 throws, and so does the edge of an entry that has
  none. The result is the marks made, and whether the walk ended with a throw.
  The walk also hides the table rows that are not on the path, which it looks up
  by their number; the rows are not modelled.
\<close>

fun pathWalk :: "nat \<Rightarrow> nat \<Rightarrow> LDVEntry list \<Rightarrow> mark list \<Rightarrow> mark list \<times> bool" where
  "pathWalk start place [] ms = (ms, place \<noteq> start)"
| "pathWalk start place (treeEdge # es) ms =
     (if place = start then (ms, False)
      else if place \<noteq> vIndex treeEdge then pathWalk start place es ms
      else (case (connection treeEdge, fromVIndex treeEdge) of
              (Some c, Some f) \<Rightarrow>
                pathWalk start f es (ms @ [Marker place vs_foundPath, Polyline c vs_foundPath])
            | _ \<Rightarrow> (ms @ [Marker place vs_foundPath], True)))"

definition cleanup :: "traversal \<Rightarrow> traversal result" where
  "cleanup s =
     (if stoppedBecause s = FoundPath
      then (case endingVertex s of
              None \<Rightarrow> Inl (TypeError, s)
            | Some e \<Rightarrow>
                let (ms, thrown) = pathWalk (startingVertex s) e (rev (treeEdges s)) [];
                    s1 = s\<lparr> marks := marks s @ ms \<rparr>
                in if thrown then Inl (TypeError, s1)
                   else Inr (s1\<lparr> nextAction := ''DONE'', iterationDone := True \<rparr>))
      else Inr (s\<lparr> nextAction := ''DONE'', iterationDone := True \<rparr>))"

text \<open>The array \<^verbatim>\<open>avActions\<close>, in the order of the source.\<close>

definition avActions ::
  "graph \<Rightarrow> (graph \<Rightarrow> LDVEntry \<Rightarrow> neighbor \<Rightarrow> real) \<Rightarrow> traversal avAction list" where
  "avActions g valForLDVEntry =
     [(''START'', START g),
      (''checkAllComponentsDone'', checkAllComponentsDone),
      (''checkComponentDone'', checkComponentDone),
      (''checkEndAdded'', checkEndAdded),
      (''checkLDVEmpty'', checkLDVEmpty),
      (''LDVEmpty'', LDVEmpty),
      (''getPlaceFromLDV'', getPlaceFromLDV g),
      (''checkAdded'', checkAdded),
      (''wasAdded'', wasAdded),
      (''wasNotAdded'', wasNotAdded g),
      (''checkNeighborsLoopTop'', checkNeighborsLoopTop g),
      (''checkNeighborsLoopIf'', checkNeighborsLoopIf),
      (''checkNeighborsLoopIfTrue'', checkNeighborsLoopIfTrue),
      (''checkNeighborsLoopIfFalse'', checkNeighborsLoopIfFalse g valForLDVEntry),
      (''finalizeComponent'', finalizeComponent),
      (''checkAnyUnadded'', checkAnyUnadded g),
      (''startNewComponent'', startNewComponent g),
      (''doneToTrue'', doneToTrue),
      (''cleanup'', cleanup)]"



section \<open>The three algorithms and the start button\<close>

text \<open>
  What an algorithm object adds to the common one: \<^verbatim>\<open>createLDV\<close>, an optional
  \<^verbatim>\<open>comparator\<close> and \<^verbatim>\<open>valForLDVEntry\<close>. The default comparator of a new
  \<^verbatim>\<open>HDXLinear\<close>, \<^verbatim>\<open>a < b\<close>, is false on two entry objects.
\<close>

record algorithm =
  createLDV :: "LDVEntry HDXLinear"
  comparator :: "(LDVEntry \<Rightarrow> LDVEntry \<Rightarrow> bool) option"
  valForLDVEntry :: "graph \<Rightarrow> LDVEntry \<Rightarrow> neighbor \<Rightarrow> real"

text \<open>The argument is the value of the selector \<^verbatim>\<open>traversalDiscipline\<close>.\<close>

definition hdxGraphTraversalsAV :: "string \<Rightarrow> algorithm" where
  "hdxGraphTraversalsAV traversalDiscipline =
     \<lparr> createLDV = (if traversalDiscipline = ''BFS'' then newHDXLinear QUEUE (\<lambda>a b. False)
                    else if traversalDiscipline = ''DFS'' then newHDXLinear STACK (\<lambda>a b. False)
                    else newHDXLinear RANDOM (\<lambda>a b. False)),
       comparator = None,
       valForLDVEntry = (\<lambda>g oldEntry nextNeighbor. val oldEntry + 1) \<rparr>"


definition hdxPrimAV :: algorithm where
  "hdxPrimAV =
     \<lparr> createLDV = newHDXLinear PRIORITY_QUEUE (\<lambda>a b. False),
       comparator = Some (\<lambda>a b. val a < val b),
       valForLDVEntry = (\<lambda>g oldEntry nextNeighbor.
          edgeLengthInMiles g (graphEdges g ! via nextNeighbor)) \<rparr>"

text \<open>
  \<^verbatim>\<open>prepToStart\<close>: a new list, its comparator if the algorithm has one, and the
  stopping condition read from its selector (the second argument). It first redraws
  every marker and connection as undiscovered (\<^verbatim>\<open>initWaypointsAndConnections\<close>);
  these calls only reset the display and are not recorded in \<open>marks\<close>, which holds
  the calls made by the actions.
\<close>

definition prepToStart :: "algorithm \<Rightarrow> stoppingCondition \<Rightarrow> traversal \<Rightarrow> traversal" where
  "prepToStart av selected s =
     s\<lparr> ldv := (case comparator av of None \<Rightarrow> createLDV av
                | Some c \<Rightarrow> setComparator c (createLDV av)),
        stoppingCondition := selected \<rparr>"

text \<open>
  The object \<^verbatim>\<open>hdxTraversalsSpanningAVCommon\<close> as the page loads it, with the
  controller's fields after an algorithm has been selected. The arguments are what
  the page supplies: the delay, whether actions are traced, the source of random
  numbers and the two vertex inputs. \<^verbatim>\<open>startingVertex\<close> is \<^verbatim>\<open>-1\<close> in the source and
  is assigned by \<^verbatim>\<open>START\<close> before it is read.
\<close>

definition hdxTraversalsSpanningAVCommon ::
  "int \<Rightarrow> bool \<Rightarrow> (nat \<Rightarrow> nat \<times> nat) \<Rightarrow> nat \<Rightarrow> nat \<Rightarrow> traversal" where
  "hdxTraversalsSpanningAVCommon d trace rand sp ep =
     \<lparr> status = AV_SELECTED, delay = d, traceActions = trace, iterationDone = False,
       nextAction = ''UNDEFINED'', alerts = [], timeouts = 0, mathRandom = rand,
       randomCalls = 0,
       ldv = newHDXLinear UNKNOWN (\<lambda>a b. False),
       addedV = [], discoveredV = [], discoveredE = [],
       stoppingCondition = StopAtEnd, stoppedBecause = StillRunning,
       componentVList = [], componentEList = [],
       startingVertex = 0, endingVertex = None, startUnaddedVSearch = 0,
       visiting = None, neighborsToLoop = [], nextNeighbor = None,
       numVSpanningTree = 0, numESpanningTree = 0, numVUndiscovered = 0,
       numEUndiscovered = 0, numEDiscardedOnDiscovery = 0, numEDiscardedOnRemoval = 0,
       componentNum = 0, treeEdges = [], allComponentsDone = False,
       foundTable = [], marks = [], startPoint = sp, endPoint = ep \<rparr>"

text \<open>
  \<^verbatim>\<open>startPausePressed\<close>: start, pause or resume, by the status. In any other
  status it alerts with the number of the status in \<^verbatim>\<open>hdxStates\<close>.
\<close>

definition statusNumber :: "hdxStates \<Rightarrow> string" where
  "statusNumber st =
     (case st of
        NO_DATA \<Rightarrow> ''1'' | GRAPH_LOADED \<Rightarrow> ''2'' | WPT_LOADED \<Rightarrow> ''3''
      | NMP_LOADED \<Rightarrow> ''4'' | WPL_LOADED \<Rightarrow> ''5'' | PTH_LOADED \<Rightarrow> ''6''
      | AV_SELECTED \<Rightarrow> ''7'' | AV_RUNNING \<Rightarrow> ''8'' | AV_PAUSED \<Rightarrow> ''9''
      | AV_COMPLETE \<Rightarrow> ''10'')"

definition startPausePressed ::
  "graph \<Rightarrow> algorithm \<Rightarrow> stoppingCondition \<Rightarrow> traversal \<Rightarrow> traversal result option" where
  "startPausePressed g av selected s =
     (if status s = AV_SELECTED then
        nextStep (avActions g (valForLDVEntry av))
          ((prepToStart av selected (setStatus AV_RUNNING s))\<lparr> nextAction := ''START'' \<rparr>)
      else if status s = AV_RUNNING then Some (Inr (setStatus AV_PAUSED s))
      else if status s = AV_PAUSED then
        nextStep (avActions g (valForLDVEntry av)) (setStatus AV_RUNNING s)
      else Some (Inr (s\<lparr> alerts := alerts s @
             [''startPausePressed, unexpected status='' @ statusNumber (status s)] \<rparr>)))"


section \<open>Notions used to state the properties\<close>

text \<open>
  The recursion equations of the scheduler's loops, for evaluation on concrete runs.
\<close>

declare oneIterationLoop.simps [code]
declare runToCompletion.simps [code]
declare fireTimeouts.simps [code]

text \<open>
  A comparator is a strict weak order when it is asymmetric and its complement is
  transitive: the order of \<^verbatim>\<open>a.val < b.val\<close> on entries, and of \<^verbatim>\<open>a < b\<close> on
  numbers. Two elements have the same priority when neither comes before the other.
\<close>

definition strictWeakOrder :: "('e \<Rightarrow> 'e \<Rightarrow> bool) \<Rightarrow> bool" where
  "strictWeakOrder cb \<longleftrightarrow>
     (\<forall>a b. cb a b \<longrightarrow> \<not> cb b a) \<and> (\<forall>a b c. \<not> cb a b \<and> \<not> cb b c \<longrightarrow> \<not> cb a c)"

definition samePriority :: "('e \<Rightarrow> 'e \<Rightarrow> bool) \<Rightarrow> 'e \<Rightarrow> 'e \<Rightarrow> bool" where
  "samePriority cb a b \<longleftrightarrow> \<not> cb a b \<and> \<not> cb b a"

text \<open>
  The array of a priority queue is ordered when no element comes before an element
  further back: \<^verbatim>\<open>remove\<close> pops the last element.
\<close>

definition pqOrdered :: "'e HDXLinear \<Rightarrow> bool" where
  "pqOrdered l \<longleftrightarrow> sorted_wrt (\<lambda>x y. \<not> comesBefore l x y) (items l)"

text \<open>The results of \<open>n\<close> calls of \<^verbatim>\<open>remove\<close> in a row.\<close>

fun removeN :: "nat \<Rightarrow> nat \<times> nat \<Rightarrow> 'e HDXLinear \<Rightarrow> 'e option list" where
  "removeN 0 r l = []"
| "removeN (Suc n) r l = (case remove r l of (x, l') \<Rightarrow> x # removeN n r l')"

text \<open>An entry that starts a search, with the given value.\<close>

definition seedEntry :: "nat \<Rightarrow> real \<Rightarrow> LDVEntry" where
  "seedEntry v x = \<lparr> vIndex = v, val = x, connection = None, fromVIndex = None \<rparr>"

text \<open>The state in which a result leaves the program, thrown or not.\<close>

definition resultState :: "'s result \<Rightarrow> 's" where
  "resultState r = (case r of Inl e \<Rightarrow> snd e | Inr s \<Rightarrow> s)"


text \<open>
  Example data: the graph with the vertices 0 to 3 and the two edges 0-1 and 2-3,
  the actions of a breadth-first traversal on it, the state of the page when that
  traversal has been selected (delay 50, actions traced, from vertex 0 to vertex 1),
  and the state in which a callback scheduled by the first step is still pending
  after the status has been set to \<^verbatim>\<open>AV_SELECTED\<close>, as when the algorithm is reset
  and selected again while the callback waits.
\<close>

definition twoPairs :: graph where
  "twoPairs =
     \<lparr> waypoints = [[\<lparr>v1 = 0, v2 = 1, edgeListIndex = 0\<rparr>], [\<lparr>v1 = 0, v2 = 1, edgeListIndex = 0\<rparr>],
                    [\<lparr>v1 = 2, v2 = 3, edgeListIndex = 1\<rparr>], [\<lparr>v1 = 2, v2 = 3, edgeListIndex = 1\<rparr>]],
       graphEdges = [\<lparr>v1 = 0, v2 = 1, edgeListIndex = 0\<rparr>, \<lparr>v1 = 2, v2 = 3, edgeListIndex = 1\<rparr>],
       edgeLengthInMiles = (\<lambda>e. 1) \<rparr>"

definition bfsActions :: "traversal avAction list" where
  "bfsActions = avActions twoPairs (valForLDVEntry (hdxGraphTraversalsAV ''BFS''))"

definition selectedState :: traversal where
  "selectedState = hdxTraversalsSpanningAVCommon 50 True (\<lambda>k. (0, 1)) 0 1"

definition staleContinuation :: traversal where
  "staleContinuation =
     setStatus AV_SELECTED
       (case startPausePressed twoPairs (hdxGraphTraversalsAV ''BFS'') StopAtEnd selectedState of
          Some (Inr s) \<Rightarrow> s | _ \<Rightarrow> selectedState)"



text \<open>
  One boolean array against a later one: every entry that read true still reads
  true. \<open>bitmapsOnlySet\<close> says so of the three arrays of a traversal.
\<close>

definition onlyFlipsToTrue :: "bool list \<Rightarrow> bool list \<Rightarrow> bool" where
  "onlyFlipsToTrue xs ys \<longleftrightarrow> (\<forall>i. arrayGet xs i \<longrightarrow> arrayGet ys i)"

definition bitmapsOnlySet :: "traversal \<Rightarrow> traversal \<Rightarrow> bool" where
  "bitmapsOnlySet s t \<longleftrightarrow>
     onlyFlipsToTrue (addedV s) (addedV t) \<and>
     onlyFlipsToTrue (discoveredV s) (discoveredV t) \<and>
     onlyFlipsToTrue (discoveredE s) (discoveredE t)"

text \<open>\<open>n\<close> calls of \<^verbatim>\<open>oneAction\<close> in a row, up to the first throw.\<close>

fun actionsN ::
  "nat \<Rightarrow> ('a hdxAV_scheme) avAction list \<Rightarrow> 'a hdxAV_scheme \<Rightarrow> ('a hdxAV_scheme) result" where
  "actionsN 0 acts s = Inr s"
| "actionsN (Suc n) acts s =
     (case oneAction acts s of Inl e \<Rightarrow> Inl e | Inr t \<Rightarrow> actionsN n acts t)"








text \<open>
  One iteration of the main loop as the specification words it, to be compared with
  the walk through the actions. \<open>spec_discoverEdge\<close> is what happens to one
  incident edge: when the far vertex is already added the edge is discarded on
  discovery, otherwise a new entry, with the value that \<open>nextValue\<close> gives for the
  entry being visited and the edge, goes into the list and the edge is marked as
  discovered. The source vertex of the new entry is the end of the edge that is not
  the far vertex.
\<close>

definition spec_discoverEdge ::
  "graph \<Rightarrow> (graph \<Rightarrow> LDVEntry \<Rightarrow> neighbor \<Rightarrow> real) \<Rightarrow> LDVEntry \<Rightarrow> neighbor \<Rightarrow> traversal \<Rightarrow> traversal" where
  "spec_discoverEdge g nextValue entry n s =
     (if arrayGet (addedV s) (to n)
      then s\<lparr> nextNeighbor := Some n,
              numEDiscardedOnDiscovery := numEDiscardedOnDiscovery s + 1,
              numEUndiscovered := (if arrayGet (discoveredE s) (via n) then numEUndiscovered s
                                   else numEUndiscovered s - 1),
              discoveredE := (if arrayGet (discoveredE s) (via n) then discoveredE s
                              else arraySetTrue (discoveredE s) (via n)),
              marks := marks s @ [Polyline (via n) vs_discardedOnDiscovery] \<rparr>
      else s\<lparr> nextNeighbor := Some n,
              ldv := add \<lparr> vIndex = to n, val = nextValue g entry n, connection = Some (via n),
                           fromVIndex = Some (otherEnd (to n) (graphEdges g ! via n)) \<rparr> (ldv s),
              numVUndiscovered := (if arrayGet (discoveredV s) (to n) then numVUndiscovered s
                                   else numVUndiscovered s - 1),
              discoveredV := (if arrayGet (discoveredV s) (to n) then discoveredV s
                              else arraySetTrue (discoveredV s) (to n)),
              numEUndiscovered := numEUndiscovered s - 1,
              discoveredE := arraySetTrue (discoveredE s) (via n),
              marks := marks s @
                [Marker (to n) (if endingVertex s = Some (to n) then vs_endVertex else vs_discovered),
                 Polyline (via n) vs_discovered] \<rparr>)"

text \<open>
  The incident edges other than the edge just used, each with its far vertex, in the
  order in which the loop takes them: from the end of the edge list to its start.
\<close>

definition spec_edgesToProcess :: "graph \<Rightarrow> LDVEntry \<Rightarrow> neighbor list" where
  "spec_edgesToProcess g entry =
     rev (map (\<lambda>e. \<lparr> to = otherEnd (vIndex entry) e, via = edgeListIndex e \<rparr>)
            (filter (\<lambda>e. Some (edgeListIndex e) \<noteq> connection entry)
               (waypoints g ! vIndex entry)))"

text \<open>
  The iteration once \<open>entry\<close> has left the list, which is then \<open>l\<close>: the entry is
  being visited; if its vertex is already added it is discarded on removal;
  otherwise the vertex is marked as added, the entry is recorded in the table of
  found places (and among the tree edges when the search stops at an end vertex),
  and every edge of \<open>spec_edgesToProcess\<close> is treated by \<open>spec_discoverEdge\<close>.
  The iteration ends at the top of the loop.
\<close>

definition spec_afterRemoval ::
  "graph \<Rightarrow> (graph \<Rightarrow> LDVEntry \<Rightarrow> neighbor \<Rightarrow> real) \<Rightarrow> LDVEntry \<Rightarrow> LDVEntry HDXLinear
     \<Rightarrow> traversal \<Rightarrow> traversal" where
  "spec_afterRemoval g nextValue entry l s =
     (let v = vIndex entry;
          s1 = s\<lparr> ldv := l, visiting := Some entry,
                  randomCalls := (if type (ldv s) = RANDOM then randomCalls s + 1
                                  else randomCalls s),
                  marks := marks s @ Marker v vs_visiting #
                    (case connection entry of None \<Rightarrow> []
                     | Some c \<Rightarrow> [Polyline c vs_visiting]) \<rparr>
      in if arrayGet (addedV s) v
         then s1\<lparr> numEDiscardedOnRemoval := numEDiscardedOnRemoval s + 1,
                  marks := marks s1 @
                    Marker v (if v = startingVertex s then vs_startVertex
                              else if Some v = endingVertex s then vs_endVertex
                              else if containsFieldMatching vIndex v l then vs_addedEarlier
                              else vs_discarded) #
                    (case connection entry of None \<Rightarrow> []
                     | Some c \<Rightarrow> [Polyline c vs_discarded, Marker v vs_discarded]),
                  nextAction := loopTop s \<rparr>
         else
           let s2 = s1\<lparr> addedV := arraySetTrue (addedV s) v,
                        componentVList := componentVList s @ [v],
                        numVSpanningTree := numVSpanningTree s + 1,
                        numESpanningTree := (case connection entry of
                                               None \<Rightarrow> numESpanningTree s
                                             | Some c \<Rightarrow> numESpanningTree s + 1),
                        componentEList := (case connection entry of
                                             None \<Rightarrow> componentEList s
                                           | Some c \<Rightarrow> componentEList s @ [c]),
                        foundTable := foundTable s @ [entry],
                        treeEdges := (if stoppingCondition s = StopAtEnd
                                      then treeEdges s @ [entry] else treeEdges s),
                        marks := marks s1 @
                          Marker v (if v = startingVertex s then vs_startVertex
                                    else if Some v = endingVertex s then vs_endVertex
                                    else vs_spanningTree) #
                          (case connection entry of None \<Rightarrow> []
                           | Some c \<Rightarrow> [Polyline c vs_spanningTree]) \<rparr>;
               s3 = fold (spec_discoverEdge g nextValue entry) (spec_edgesToProcess g entry) s2
           in s3\<lparr> neighborsToLoop := [], nextAction := loopTop s \<rparr>)"

definition spec_iteration ::
  "graph \<Rightarrow> (graph \<Rightarrow> LDVEntry \<Rightarrow> neighbor \<Rightarrow> real) \<Rightarrow> traversal \<Rightarrow> traversal" where
  "spec_iteration g nextValue s =
     (case remove (mathRandom s (randomCalls s)) (ldv s) of
        (None, l) \<Rightarrow> s
      | (Some entry, l) \<Rightarrow> spec_afterRemoval g nextValue entry l s)"

text \<open>The number of actions that make up the iteration.\<close>

definition spec_iterationActions :: "graph \<Rightarrow> traversal \<Rightarrow> nat" where
  "spec_iterationActions g s =
     (case fst (remove (mathRandom s (randomCalls s)) (ldv s)) of
        None \<Rightarrow> 0
      | Some entry \<Rightarrow>
          if arrayGet (addedV s) (vIndex entry) then 3
          else 4 + 2 * length (spec_edgesToProcess g entry))"



text \<open>
  Example data: the state of the breadth-first traversal of \<open>twoPairs\<close> two actions
  after the first, when the next action removes the start entry from the list.
\<close>

definition atRemoval :: traversal where
  "atRemoval = resultState (actionsN 2 bfsActions staleContinuation)"



text \<open>
  Granularity. The controller's own fields are the status, the delay, whether actions
  are traced, the flag that ends an iteration and the pending callbacks. \<open>forget\<close>
  resets them and leaves the rest of the state as it is: for a traversal the tree
  edges, the list of the component's vertices, the arrays, the counters, the list of
  discovered vertices, the calls to the display and the random numbers drawn.
  \<open>mapResult\<close> applies a function to the state of a result, thrown or not.
\<close>

definition forget :: "'a hdxAV_scheme \<Rightarrow> 'a hdxAV_scheme" where
  "forget s = s\<lparr> status := NO_DATA, delay := 0, traceActions := False,
                 iterationDone := False, timeouts := 0 \<rparr>"

definition mapResult :: "('s \<Rightarrow> 't) \<Rightarrow> 's result \<Rightarrow> 't result" where
  "mapResult f r = (case r of Inl e \<Rightarrow> Inl (fst e, f (snd e)) | Inr s \<Rightarrow> Inr (f s))"

text \<open>
  Two properties of an action's result, against the state it started from: when the
  next action is \<^verbatim>\<open>"DONE"\<close> the iteration has been marked as done; and the action has
  left the controller's fields as they were (after a throw, the pending callbacks).
  A table of actions is \<open>independentOfController\<close> when every action has both and
  computes, up to the controller's fields, the same result whatever these fields are.
\<close>

definition doneMarksIteration :: "('a hdxAV_scheme) result \<Rightarrow> bool" where
  "doneMarksIteration r \<longleftrightarrow>
     (case r of Inl e \<Rightarrow> True | Inr t \<Rightarrow> nextAction t = ''DONE'' \<longrightarrow> iterationDone t)"

definition keepsController :: "'a hdxAV_scheme \<Rightarrow> ('a hdxAV_scheme) result \<Rightarrow> bool" where
  "keepsController s r \<longleftrightarrow>
     (case r of
        Inl e \<Rightarrow> timeouts (snd e) = timeouts s
      | Inr t \<Rightarrow> status t = status s \<and> delay t = delay s \<and> traceActions t = traceActions s
                 \<and> timeouts t = timeouts s)"

definition independentOfController :: "('a hdxAV_scheme) avAction list \<Rightarrow> bool" where
  "independentOfController acts \<longleftrightarrow>
     (\<forall>s. mapResult forget (oneAction acts (forget s)) = mapResult forget (oneAction acts s)) \<and>
     (\<forall>s. doneMarksIteration (oneAction acts s) \<and> keepsController s (oneAction acts s))"

text \<open>
  \<open>walkN n\<close> performs up to \<open>n\<close> actions, one after the other, and stops at
  \<^verbatim>\<open>"DONE"\<close> or at a throw; a result is \<open>finished\<close> when it is one of the two, and
  \<open>finish\<close> is the state in which \<^verbatim>\<open>nextStep\<close> then leaves the page when it traces
  actions. \<open>afterInner\<close> is the loop of \<^verbatim>\<open>nextStep\<close> entered inside an iteration.
\<close>

definition finished :: "('a hdxAV_scheme) result \<Rightarrow> bool" where
  "finished r \<longleftrightarrow> (case r of Inl e \<Rightarrow> True | Inr t \<Rightarrow> nextAction t = ''DONE'')"

definition finish :: "('a hdxAV_scheme) result \<Rightarrow> 'a hdxAV_scheme" where
  "finish r = (case r of Inl e \<Rightarrow> snd e | Inr t \<Rightarrow> setStatus AV_COMPLETE t)"

fun walkN ::
  "nat \<Rightarrow> ('a hdxAV_scheme) avAction list \<Rightarrow> 'a hdxAV_scheme \<Rightarrow> ('a hdxAV_scheme) result" where
  "walkN 0 acts s = Inr s"
| "walkN (Suc n) acts s =
     (if nextAction s = ''DONE'' then Inr s
      else case oneAction acts s of Inl e \<Rightarrow> Inl e | Inr t \<Rightarrow> walkN n acts t)"

definition afterInner ::
  "('a hdxAV_scheme) avAction list \<Rightarrow> 'a hdxAV_scheme \<Rightarrow> ('a hdxAV_scheme) result option" where
  "afterInner acts s =
     (case oneIterationLoop acts s of
        None \<Rightarrow> None
      | Some (Inl e) \<Rightarrow> Some (Inl e)
      | Some (Inr t) \<Rightarrow> runToCompletion acts t)"

text \<open>
  A state from which \<^verbatim>\<open>nextStep\<close> does one action and sets the timeout for the next,
  and \<open>runStepping\<close>: a call of \<^verbatim>\<open>nextStep\<close> followed by the callbacks it leaves
  pending, each followed by its own, until none is pending.
\<close>

definition stepping :: "'a hdxAV_scheme \<Rightarrow> bool" where
  "stepping s \<longleftrightarrow>
     status s = AV_RUNNING \<and> delay s \<noteq> 0 \<and> delay s \<noteq> - 1 \<and> traceActions s \<and> timeouts s = 0"

definition runStepping ::
  "('a hdxAV_scheme) avAction list \<Rightarrow> 'a hdxAV_scheme \<Rightarrow> ('a hdxAV_scheme) option" where
  "runStepping acts s =
     (case nextStep acts s of
        None \<Rightarrow> None
      | Some (Inl e) \<Rightarrow> fireTimeouts acts (snd e)
      | Some (Inr t) \<Rightarrow> fireTimeouts acts t)"

text \<open>
  The two runs of a selected algorithm, from the click on the start button
  (\<^verbatim>\<open>startPausePressed\<close>). With the delay 0, the call returns when the run is over.
  With another delay and the actions traced, the call performs one action and every
  callback performs the next.
\<close>

definition completionRun ::
  "graph \<Rightarrow> algorithm \<Rightarrow> stoppingCondition \<Rightarrow> traversal \<Rightarrow> traversal option" where
  "completionRun g av selected s =
     map_option resultState (startPausePressed g av selected (s\<lparr> delay := 0 \<rparr>))"

definition actionByActionRun ::
  "graph \<Rightarrow> algorithm \<Rightarrow> stoppingCondition \<Rightarrow> int \<Rightarrow> traversal \<Rightarrow> traversal option" where
  "actionByActionRun g av selected d s =
     (case startPausePressed g av selected (s\<lparr> delay := d, traceActions := True \<rparr>) of
        None \<Rightarrow> None
      | Some r \<Rightarrow> fireTimeouts (avActions g (valForLDVEntry av)) (resultState r))"


text \<open>
  Paths. \<open>edgeTo g v w\<close>: \<^verbatim>\<open>getAdjacentPoints(v)\<close> returns \<open>w\<close> among the neighbours of
  \<open>v\<close>; a path is a chain of such steps, of any length. A graph is well formed when
  the end points of every edge are waypoints and every edge of an edge list has a
  place in \<^verbatim>\<open>graphEdges\<close>.
\<close>

definition edgeTo :: "graph \<Rightarrow> nat \<Rightarrow> nat \<Rightarrow> bool" where
  "edgeTo g v w \<longleftrightarrow> (case getAdjacentPoints g v of Inl e \<Rightarrow> False | Inr ns \<Rightarrow> w \<in> set ns)"

definition pathExists :: "graph \<Rightarrow> nat \<Rightarrow> nat \<Rightarrow> bool" where
  "pathExists g a b \<longleftrightarrow> rtranclp (edgeTo g) a b"

definition wellFormed :: "graph \<Rightarrow> bool" where
  "wellFormed g \<longleftrightarrow>
     (\<forall>e \<in> set (graphEdges g). v1 e < length (waypoints g) \<and> v2 e < length (waypoints g)) \<and>
     (\<forall>es \<in> set (waypoints g). \<forall>e \<in> set es.
        edgeListIndex e < length (graphEdges g) \<and>
        v1 e < length (waypoints g) \<and> v2 e < length (waypoints g))"

text \<open>
  What holds during a search for an end vertex that started with no neighbour
  pending. An entry is good when a path leads from the start vertex to its vertex
  and the display can read it; a pending neighbour likewise. \<open>searchInv\<close> holds
  at every action: the list has a discipline, its entries and the pending neighbours
  are good, and a path leads to every added vertex. \<open>phaseOf\<close> is what holds in
  addition before the action with the given label.
\<close>

definition goodEntry :: "graph \<Rightarrow> nat \<Rightarrow> LDVEntry \<Rightarrow> bool" where
  "goodEntry g sp x \<longleftrightarrow> pathExists g sp (vIndex x) \<and> foundTableReadable g x"

definition goodNeighbor :: "graph \<Rightarrow> nat \<Rightarrow> neighbor \<Rightarrow> bool" where
  "goodNeighbor g sp n \<longleftrightarrow>
     pathExists g sp (to n) \<and> to n < length (waypoints g) \<and> via n < length (graphEdges g)"

definition searchInv :: "graph \<Rightarrow> nat \<Rightarrow> nat \<Rightarrow> traversal \<Rightarrow> bool" where
  "searchInv g sp ep s \<longleftrightarrow>
     stoppingCondition s = StopAtEnd \<and> endingVertex s = Some ep \<and> startingVertex s = sp \<and>
     type (ldv s) \<noteq> UNKNOWN \<and>
     (\<forall>k. fst (mathRandom s k) < snd (mathRandom s k)) \<and>
     (\<forall>x \<in> set (items (ldv s)). goodEntry g sp x) \<and>
     (\<forall>v. arrayGet (addedV s) v \<longrightarrow> pathExists g sp v) \<and>
     (\<forall>n \<in> set (neighborsToLoop s). goodNeighbor g sp n)"

definition visitingOK :: "graph \<Rightarrow> nat \<Rightarrow> traversal \<Rightarrow> bool" where
  "visitingOK g sp s \<longleftrightarrow> (case visiting s of None \<Rightarrow> False | Some item \<Rightarrow> goodEntry g sp item)"

definition nextNeighborOK :: "graph \<Rightarrow> nat \<Rightarrow> traversal \<Rightarrow> bool" where
  "nextNeighborOK g sp s \<longleftrightarrow>
     (case nextNeighbor s of None \<Rightarrow> False | Some n \<Rightarrow> goodNeighbor g sp n)"

definition phaseOf :: "graph \<Rightarrow> nat \<Rightarrow> string \<Rightarrow> traversal \<Rightarrow> bool" where
  "phaseOf g sp a s \<longleftrightarrow>
     (if a = ''checkEndAdded'' \<or> a = ''checkLDVEmpty'' then neighborsToLoop s = []
      else if a = ''LDVEmpty'' then neighborsToLoop s = [] \<and> isEmpty (ldv s)
      else if a = ''getPlaceFromLDV'' then neighborsToLoop s = [] \<and> \<not> isEmpty (ldv s)
      else if a = ''checkAdded'' \<or> a = ''wasAdded'' \<or> a = ''checkNeighborsLoopTop''
        then neighborsToLoop s = [] \<and> visitingOK g sp s
      else if a = ''wasNotAdded''
        then neighborsToLoop s = [] \<and> visitingOK g sp s \<and>
             (case visiting s of None \<Rightarrow> False
              | Some item \<Rightarrow> \<not> arrayGet (addedV s) (vIndex item))
      else if a = ''checkNeighborsLoopIf'' then neighborsToLoop s \<noteq> [] \<and> visitingOK g sp s
      else if a = ''checkNeighborsLoopIfTrue'' \<or> a = ''checkNeighborsLoopIfFalse''
        then visitingOK g sp s \<and> nextNeighborOK g sp s
      else if a = ''cleanup'' \<or> a = ''DONE''
        then stoppedBecause s = SearchFailed \<and> isEmpty (ldv s)
      else False)"

definition phaseInv :: "graph \<Rightarrow> nat \<Rightarrow> traversal \<Rightarrow> bool" where
  "phaseInv g sp s \<longleftrightarrow> phaseOf g sp (nextAction s) s"

text \<open>
  The measure that every action of the search lowers: for each vertex not yet added,
  its own addition and the treatment of its edges; for each entry of the list, its
  removal; for each pending neighbour, its treatment; and what is left of the
  iteration in progress. \<open>stepOK\<close>: the action has not thrown, the two invariants
  hold again and the measure is lower.
\<close>

definition unaddedWork :: "graph \<Rightarrow> bool list \<Rightarrow> nat" where
  "unaddedWork g added =
     (\<Sum>v < length (waypoints g).
        if arrayGet added v then 0 else 8 * length (waypoints g ! v) + 2)"

definition weight :: "graph \<Rightarrow> string \<Rightarrow> LDVEntry option \<Rightarrow> nat" where
  "weight g a vis =
     (if a = ''cleanup'' then 1
      else if a = ''LDVEmpty'' then 2
      else if a = ''getPlaceFromLDV'' then 1
      else if a = ''checkLDVEmpty'' then 3
      else if a = ''checkEndAdded'' then 4
      else if a = ''wasAdded'' then 5
      else if a = ''wasNotAdded'' then 5
      else if a = ''checkAdded'' then 6
      else if a = ''checkNeighborsLoopIf'' then 5
      else if a = ''checkNeighborsLoopIfTrue'' then 6
      else if a = ''checkNeighborsLoopIfFalse'' then 12
      else if a = ''checkNeighborsLoopTop''
        then (case vis of None \<Rightarrow> 6 | Some item \<Rightarrow> 8 * length (waypoints g ! vIndex item) + 6)
      else 0)"

definition potential :: "graph \<Rightarrow> traversal \<Rightarrow> nat" where
  "potential g s =
     unaddedWork g (addedV s) + 6 * length (items (ldv s)) + 8 * length (neighborsToLoop s) +
     weight g (nextAction s) (visiting s)"

definition stepOK :: "graph \<Rightarrow> nat \<Rightarrow> nat \<Rightarrow> traversal \<Rightarrow> traversal result \<Rightarrow> bool" where
  "stepOK g sp ep s r \<longleftrightarrow>
     (case r of Inl e \<Rightarrow> False
      | Inr t \<Rightarrow> searchInv g sp ep t \<and> phaseInv g sp t \<and> potential g t < potential g s)"

text \<open>
  Example data: the breadth-first traversal of \<open>twoPairs\<close> selected from vertex 0
  to vertex 2, between which there is no path.
\<close>

definition noPathState :: traversal where
  "noPathState = hdxTraversalsSpanningAVCommon 50 True (\<lambda>k. (0, 1)) 0 2"

text \<open>
  Example data: a run interrupted in the loop over the neighbours, and the next run.
  \<open>interruptedRun\<close> is the breadth-first traversal of \<open>twoPairs\<close> that finds what can
  be reached from vertex 3, with delay 50 and traced actions, after the click on the
  start button and five callbacks: \<^verbatim>\<open>checkNeighborsLoopTop\<close> has just pushed the
  neighbour 2 of vertex 3. The user then pauses (the pending callback finds the
  status paused and does nothing), resets, chooses the search from vertex 0 to the
  end vertex 2 and confirms, which sets the status to selected: \<open>secondRun\<close>.
  \<open>staleLoopTop\<close> is the second run where it first removes an entry from the list:
  after the click on the start button and two callbacks.
\<close>

definition interruptedRun :: traversal where
  "interruptedRun =
     resultState (actionsN 5 bfsActions
       (case startPausePressed twoPairs (hdxGraphTraversalsAV ''BFS'') FindReachable
               (hdxTraversalsSpanningAVCommon 50 True (\<lambda>k. (0, 1)) 3 0) of
          Some (Inr s) \<Rightarrow> s
        | _ \<Rightarrow> hdxTraversalsSpanningAVCommon 50 True (\<lambda>k. (0, 1)) 3 0))"

definition secondRun :: traversal where
  "secondRun = interruptedRun\<lparr> status := AV_SELECTED, timeouts := 0, startPoint := 0, endPoint := 2 \<rparr>"



section \<open>The list of discovered vertices: order of removal\<close>

lemma addScan_from: "addScan cb e xs i = i + length (takeWhile (cb e) xs)"
  by (induction xs arbitrary: i) simp_all

lemma splice0_addScan:
  "splice0 (addScan cb e xs 0) e xs = takeWhile (cb e) xs @ e # dropWhile (cb e) xs"
proof -
  have "take (length (takeWhile (cb e) xs)) xs = takeWhile (cb e) xs"
    by (induction xs) simp_all
  moreover have "drop (length (takeWhile (cb e) xs)) xs = dropWhile (cb e) xs"
    by (induction xs) simp_all
  ultimately show ?thesis by (simp add: splice0_def addScan_from)
qed

lemma items_add_priority:
  assumes "type l = PRIORITY_QUEUE"
  shows "items (add e l) =
         takeWhile (comesBefore l e) (items l) @ e # dropWhile (comesBefore l e) (items l)"
proof (cases "items l = []")
  case True
  then show ?thesis by (simp add: add_def)
next
  case False
  with assms show ?thesis by (simp add: add_def splice0_addScan)
qed

lemma comesBefore_add [simp]: "comesBefore (add e l) = comesBefore l"
  by (simp add: add_def)

lemma type_add [simp]: "type (add e l) = type l"
  by (simp add: add_def)

lemma swo_asym: "strictWeakOrder cb \<Longrightarrow> cb a b \<Longrightarrow> \<not> cb b a"
  unfolding strictWeakOrder_def by blast

lemma swo_negtrans: "strictWeakOrder cb \<Longrightarrow> \<not> cb a b \<Longrightarrow> \<not> cb b c \<Longrightarrow> \<not> cb a c"
  unfolding strictWeakOrder_def by blast

lemma sorted_wrt_insert:
  assumes swo: "strictWeakOrder cb" and srt: "sorted_wrt (\<lambda>x y. \<not> cb x y) xs"
  shows "sorted_wrt (\<lambda>x y. \<not> cb x y) (takeWhile (cb e) xs @ e # dropWhile (cb e) xs)"
  using srt
proof (induction xs)
  case Nil show ?case by simp
next
  case (Cons x xs)
  show ?case
  proof (cases "cb e x")
    case True
    have "\<forall>y \<in> set (takeWhile (cb e) xs @ e # dropWhile (cb e) xs). \<not> cb x y"
    proof
      fix y assume "y \<in> set (takeWhile (cb e) xs @ e # dropWhile (cb e) xs)"
      then have "y = e \<or> y \<in> set xs"
        using set_takeWhileD [of y "cb e" xs] set_dropWhileD [of y "cb e" xs] by auto
      then show "\<not> cb x y"
      proof
        assume "y = e" with True swo_asym [OF swo] show ?thesis by blast
      next
        assume "y \<in> set xs" with Cons.prems show ?thesis by simp
      qed
    qed
    then show ?thesis using True Cons by simp
  next
    case False
    have "\<forall>y \<in> set xs. \<not> cb e y"
    proof
      fix y assume "y \<in> set xs"
      then have "\<not> cb x y" using Cons.prems by simp
      with False show "\<not> cb e y" using swo_negtrans [OF swo] by blast
    qed
    then show ?thesis using False Cons.prems by simp
  qed
qed

lemma pqOrdered_add:
  assumes t: "type l = PRIORITY_QUEUE" and swo: "strictWeakOrder (comesBefore l)"
    and o: "pqOrdered l"
  shows "pqOrdered (add e l)"
  unfolding pqOrdered_def comesBefore_add items_add_priority [OF t]
  using sorted_wrt_insert [OF swo] o unfolding pqOrdered_def by blast

lemma remove_priority:
  "type l = PRIORITY_QUEUE \<Longrightarrow> items l \<noteq> [] \<Longrightarrow>
   remove r l = (Some (last (items l)),
                 l\<lparr> removeCount := removeCount l + 1, items := butlast (items l) \<rparr>)"
  by (simp add: remove_def)

lemma last_extremal:
  assumes swo: "strictWeakOrder cb" and srt: "sorted_wrt (\<lambda>x y. \<not> cb x y) xs"
    and ne: "xs \<noteq> []" and y: "y \<in> set xs"
  shows "\<not> cb y (last xs)"
proof -
  from ne have xs: "xs = butlast xs @ [last xs]" by simp
  from y xs have "y \<in> set (butlast xs) \<or> y = last xs"
    by (metis Un_iff empty_iff empty_set insert_iff list.simps(15) set_append)
  then show ?thesis
  proof
    assume "y \<in> set (butlast xs)"
    moreover from srt xs have "sorted_wrt (\<lambda>x y. \<not> cb x y) (butlast xs @ [last xs])" by simp
    ultimately show ?thesis by (simp add: sorted_wrt_append)
  next
    assume "y = last xs"
    then show ?thesis using swo_asym [OF swo] by blast
  qed
qed

lemma sorted_wrt_butlast: "sorted_wrt P xs \<Longrightarrow> sorted_wrt P (butlast xs)"
proof (cases "xs = []")
  case True then show ?thesis by simp
next
  case False
  assume "sorted_wrt P xs"
  with False have "sorted_wrt P (butlast xs @ [last xs])" by simp
  then show ?thesis by (simp add: sorted_wrt_append)
qed

lemma filter_rev_add:
  assumes t: "type l = PRIORITY_QUEUE" and swo: "strictWeakOrder (comesBefore l)"
  shows "filter (samePriority (comesBefore l) x) (rev (items (add e l))) =
         filter (samePriority (comesBefore l) x) (rev (items l)) @
           (if samePriority (comesBefore l) x e then [e] else [])"
proof -
  let ?cb = "comesBefore l" and ?f = "filter (samePriority (comesBefore l) x)"
  let ?tw = "takeWhile (?cb e) (items l)" and ?dw = "dropWhile (?cb e) (items l)"
  have split: "?f (rev (items l)) = ?f (rev ?dw) @ ?f (rev ?tw)"
  proof -
    have "items l = ?tw @ ?dw" by simp
    then have "rev (items l) = rev ?dw @ rev ?tw" by (metis rev_append)
    then show ?thesis by (metis filter_append)
  qed
  have new: "?f (rev (items (add e l))) =
             ?f (rev ?dw) @ (if samePriority ?cb x e then [e] else []) @ ?f (rev ?tw)"
    by (simp add: items_add_priority [OF t])
  show ?thesis
  proof (cases "samePriority ?cb x e")
    case True
    have "\<forall>y \<in> set (rev ?tw). \<not> samePriority ?cb x y"
    proof
      fix y assume "y \<in> set (rev ?tw)"
      then have ey: "?cb e y" using set_takeWhileD [of y "?cb e" "items l"] by simp
      show "\<not> samePriority ?cb x y"
      proof
        assume "samePriority ?cb x y"
        with True have "\<not> ?cb e x" and "\<not> ?cb x y" by (simp_all add: samePriority_def)
        then have "\<not> ?cb e y" by (rule swo_negtrans [OF swo])
        with ey show False by simp
      qed
    qed
    then have "?f (rev ?tw) = []" by (simp only: filter_False)
    with True new split show ?thesis by simp
  next
    case False
    with new split show ?thesis by simp
  qed
qed

lemma remove_empty_any:
  "items l = [] \<Longrightarrow> remove r l = (None, l\<lparr> removeCount := removeCount l + 1 \<rparr>)"
  by (cases "type l") (simp_all add: remove_def randomIndex_def splice1_def)


lemma pqOrdered_new: "pqOrdered (newHDXLinear t c)"
  by (simp add: pqOrdered_def newHDXLinear_def)

lemma pqOrdered_remove:
  assumes "pqOrdered l"
  shows "pqOrdered (snd (remove r l))"
proof -
  have "sorted_wrt (\<lambda>x y. \<not> comesBefore l x y) (butlast (items l))"
    using assms sorted_wrt_butlast unfolding pqOrdered_def by blast
  moreover have "sorted_wrt (\<lambda>x y. \<not> comesBefore l x y) (tl (items l))"
    using assms unfolding pqOrdered_def by (cases "items l") simp_all
  moreover have "sorted_wrt (\<lambda>x y. \<not> comesBefore l x y) (splice1 i (items l))" for i
  proof -
    have "sorted_wrt (\<lambda>x y. \<not> comesBefore l x y) (take i (items l) @ drop i (items l))"
      using assms unfolding pqOrdered_def by simp
    then show ?thesis
      unfolding splice1_def sorted_wrt_append
      using set_drop_subset_set_drop [of i "i + 1" "items l"]
        sorted_wrt_drop [of _ "drop i (items l)" 1] by (auto simp: drop_Suc)
  qed
  ultimately show ?thesis using assms
    by (cases "type l")
       (auto simp: remove_def pqOrdered_def Let_def split: list.splits)
qed

lemma scenario_5381:
  "map (map_option val)
     (removeN 4 r (fold add [seedEntry 0 5, seedEntry 1 3, seedEntry 2 8, seedEntry 3 1]
        (setComparator (\<lambda>a b. val a < val b) (newHDXLinear PRIORITY_QUEUE (\<lambda>a b. False)))))
   = [Some 1, Some 3, Some 5, Some 8]"
  by (simp add: numeral_nat setComparator_def newHDXLinear_def add_def seedEntry_def splice0_def
        remove_def)

text \<open>
  C1. In a priority queue whose comparator is a strict weak order and whose array is
  ordered, \<^verbatim>\<open>add\<close> inserts the entry at a position that leaves the other entries
  in their order and keeps the array ordered, and \<^verbatim>\<open>remove\<close> returns an entry that
  no entry of the queue comes before, leaving the array ordered. Entries of value
  5, 3, 8, 1 added in that order to a queue with the comparator \<^verbatim>\<open>a.val < b.val\<close>
  are removed in the order 1, 3, 5, 8.
\<close>

theorem priority_add_ordered_remove_extremal:
  assumes t: "type l = PRIORITY_QUEUE" and swo: "strictWeakOrder (comesBefore l)"
    and o: "pqOrdered l"
  shows "pqOrdered (add e l)
       \<and> (\<exists>i \<le> length (items l). items (add e l) = take i (items l) @ e # drop i (items l))
       \<and> (items l \<noteq> [] \<longrightarrow>
            (\<exists>x. remove r l = (Some x, l\<lparr> removeCount := removeCount l + 1,
                                          items := butlast (items l) \<rparr>)
                \<and> x \<in> set (items l)
                \<and> (\<forall>y \<in> set (items l). \<not> comesBefore l y x)))
       \<and> pqOrdered (snd (remove r l))
       \<and> map (map_option val)
           (removeN 4 r (fold add [seedEntry 0 5, seedEntry 1 3, seedEntry 2 8, seedEntry 3 1]
              (setComparator (\<lambda>a b. val a < val b) (newHDXLinear PRIORITY_QUEUE (\<lambda>a b. False)))))
         = [Some 1, Some 3, Some 5, Some 8]"
proof -
  have a: "pqOrdered (add e l)" by (rule pqOrdered_add [OF t swo o])
  have b: "\<exists>i \<le> length (items l). items (add e l) = take i (items l) @ e # drop i (items l)"
  proof (intro exI conjI)
    show "length (takeWhile (comesBefore l e) (items l)) \<le> length (items l)"
      by (rule length_takeWhile_le)
    show "items (add e l) = take (length (takeWhile (comesBefore l e) (items l))) (items l) @
            e # drop (length (takeWhile (comesBefore l e) (items l))) (items l)"
      unfolding items_add_priority [OF t]
      by (simp add: takeWhile_eq_take [symmetric] dropWhile_eq_drop [symmetric])
  qed
  have c: "items l \<noteq> [] \<longrightarrow>
            (\<exists>x. remove r l = (Some x, l\<lparr> removeCount := removeCount l + 1,
                                          items := butlast (items l) \<rparr>)
                \<and> x \<in> set (items l)
                \<and> (\<forall>y \<in> set (items l). \<not> comesBefore l y x))"
  proof
    assume ne: "items l \<noteq> []"
    have "\<forall>y \<in> set (items l). \<not> comesBefore l y (last (items l))"
      using last_extremal [OF swo _ ne] o unfolding pqOrdered_def by blast
    then show "\<exists>x. remove r l = (Some x, l\<lparr> removeCount := removeCount l + 1,
                                          items := butlast (items l) \<rparr>)
                \<and> x \<in> set (items l)
                \<and> (\<forall>y \<in> set (items l). \<not> comesBefore l y x)"
      using remove_priority [OF t ne] ne by simp
  qed
  show ?thesis using a b c pqOrdered_remove [OF o] scenario_5381 by blast
qed


theorem priority_add_ordered_remove_extremal_witness:
  "type (add 3 (add 5 (HDXLinear PRIORITY_QUEUE :: real HDXLinear))) = PRIORITY_QUEUE
   \<and> strictWeakOrder (comesBefore (add 3 (add 5 (HDXLinear PRIORITY_QUEUE :: real HDXLinear))))
   \<and> pqOrdered (add 3 (add 5 (HDXLinear PRIORITY_QUEUE :: real HDXLinear)))
   \<and> pqOrdered (add 8 (add 3 (add 5 (HDXLinear PRIORITY_QUEUE :: real HDXLinear))))
   \<and> items (add 8 (add 3 (add 5 (HDXLinear PRIORITY_QUEUE :: real HDXLinear)))) = [8, 5, 3]"
proof -
  let ?l = "add 3 (add 5 (HDXLinear PRIORITY_QUEUE :: real HDXLinear))"
  have t: "type ?l = PRIORITY_QUEUE" by (simp add: HDXLinear_def)
  have swo: "strictWeakOrder (comesBefore ?l)"
    by (auto simp: strictWeakOrder_def HDXLinear_def)
  have o: "pqOrdered ?l"
    by (simp add: pqOrdered_def add_def HDXLinear_def splice0_def)
  have "items (add 8 ?l) = [8, 5, 3]"
    by (simp add: add_def HDXLinear_def splice0_def)
  with priority_add_ordered_remove_extremal [OF t swo o, of 8 "(0, 1)"] t swo o
  show ?thesis by blast
qed


lemma filter_rev_fold_add:
  assumes t: "type l = PRIORITY_QUEUE" and swo: "strictWeakOrder (comesBefore l)"
  shows "filter (samePriority (comesBefore l) x) (rev (items (fold add es l))) =
         filter (samePriority (comesBefore l) x) (rev (items l)) @
         filter (samePriority (comesBefore l) x) es"
  using t swo
proof (induction es arbitrary: l)
  case Nil
  show ?case by simp
next
  case (Cons e es)
  have t': "type (add e l) = PRIORITY_QUEUE" using Cons.prems by simp
  have swo': "strictWeakOrder (comesBefore (add e l))" using Cons.prems by simp
  show ?case
    using Cons.IH [OF t' swo'] filter_rev_add [OF Cons.prems(1) Cons.prems(2), of x e]
    by simp
qed

text \<open>
  C10. In a priority queue whose comparator is a strict weak order, \<^verbatim>\<open>add\<close> puts the
  new entry in front of every entry of the same priority that the array holds, and
  \<^verbatim>\<open>remove\<close> pops the last entry of the array. So the entries of one priority leave
  in the order in which they were added: seen from the end from which \<^verbatim>\<open>remove\<close>
  pops, \<^verbatim>\<open>add\<close> appends the new entry to the entries of its priority, and after any
  sequence of additions to an empty queue the entries of one priority stand, from
  that end, in the order of insertion.
\<close>

theorem priority_ties_first_in_first_out:
  assumes t: "type l = PRIORITY_QUEUE" and swo: "strictWeakOrder (comesBefore l)"
  shows "(\<exists>xs ys. items l = xs @ ys \<and> items (add e l) = xs @ e # ys
            \<and> (\<forall>y \<in> set xs. \<not> samePriority (comesBefore l) e y))
       \<and> (items l \<noteq> [] \<longrightarrow>
            fst (remove r l) = Some (last (items l))
            \<and> items (snd (remove r l)) = butlast (items l))
       \<and> filter (samePriority (comesBefore l) x) (rev (items (add e l))) =
           filter (samePriority (comesBefore l) x) (rev (items l)) @
             (if samePriority (comesBefore l) x e then [e] else [])
       \<and> (items l = [] \<longrightarrow>
            filter (samePriority (comesBefore l) x) (rev (items (fold add es l))) =
            filter (samePriority (comesBefore l) x) es)"
proof -
  let ?tw = "takeWhile (comesBefore l e) (items l)"
  let ?dw = "dropWhile (comesBefore l e) (items l)"
  have "items l = ?tw @ ?dw" by simp
  moreover have "items (add e l) = ?tw @ e # ?dw" by (rule items_add_priority [OF t])
  moreover have "\<forall>y \<in> set ?tw. \<not> samePriority (comesBefore l) e y"
    using set_takeWhileD [of _ "comesBefore l e" "items l"] by (auto simp: samePriority_def)
  ultimately have a: "\<exists>xs ys. items l = xs @ ys \<and> items (add e l) = xs @ e # ys
            \<and> (\<forall>y \<in> set xs. \<not> samePriority (comesBefore l) e y)" by blast
  have b: "items l \<noteq> [] \<longrightarrow>
            fst (remove r l) = Some (last (items l))
            \<and> items (snd (remove r l)) = butlast (items l)"
    using remove_priority [OF t, of r] by simp
  have d: "items l = [] \<longrightarrow>
            filter (samePriority (comesBefore l) x) (rev (items (fold add es l))) =
            filter (samePriority (comesBefore l) x) es"
    using filter_rev_fold_add [OF t swo, of x es] by simp
  show ?thesis using a b d filter_rev_add [OF t swo, of x e] by blast
qed

theorem priority_ties_first_in_first_out_witness:
  "type (newHDXLinear PRIORITY_QUEUE (\<lambda>a b :: LDVEntry. val a < val b)) = PRIORITY_QUEUE
   \<and> strictWeakOrder (comesBefore (newHDXLinear PRIORITY_QUEUE (\<lambda>a b :: LDVEntry. val a < val b)))
   \<and> items (newHDXLinear PRIORITY_QUEUE (\<lambda>a b :: LDVEntry. val a < val b)) = []
   \<and> filter (samePriority (\<lambda>a b. val a < val b) (seedEntry 0 1))
        (rev (items (fold add [seedEntry 0 1, seedEntry 1 2, seedEntry 2 1, seedEntry 3 1]
                       (newHDXLinear PRIORITY_QUEUE (\<lambda>a b :: LDVEntry. val a < val b)))))
       = [seedEntry 0 1, seedEntry 2 1, seedEntry 3 1]"
proof -
  let ?l = "newHDXLinear PRIORITY_QUEUE (\<lambda>a b :: LDVEntry. val a < val b)"
  have t: "type ?l = PRIORITY_QUEUE" by (simp add: newHDXLinear_def)
  have swo: "strictWeakOrder (comesBefore ?l)"
    by (auto simp: strictWeakOrder_def newHDXLinear_def)
  have e: "items ?l = []" by (simp add: newHDXLinear_def)
  have cb: "comesBefore ?l = (\<lambda>a b :: LDVEntry. val a < val b)" by (simp add: newHDXLinear_def)
  have f: "filter (samePriority (\<lambda>a b. val a < val b) (seedEntry 0 1))
          [seedEntry 0 1, seedEntry 1 2, seedEntry 2 1, seedEntry 3 1]
        = [seedEntry 0 1, seedEntry 2 1, seedEntry 3 1]"
    by (simp add: samePriority_def seedEntry_def)
  have "items ?l = [] \<longrightarrow>
        filter (samePriority (comesBefore ?l) (seedEntry 0 1))
          (rev (items (fold add [seedEntry 0 1, seedEntry 1 2, seedEntry 2 1, seedEntry 3 1] ?l)))
        = filter (samePriority (comesBefore ?l) (seedEntry 0 1))
            [seedEntry 0 1, seedEntry 1 2, seedEntry 2 1, seedEntry 3 1]"
    using priority_ties_first_in_first_out [OF t swo, of "seedEntry 0 1" "(0, 1)" "seedEntry 0 1"
      "[seedEntry 0 1, seedEntry 1 2, seedEntry 2 1, seedEntry 3 1]"] by blast
  with e have "filter (samePriority (comesBefore ?l) (seedEntry 0 1))
          (rev (items (fold add [seedEntry 0 1, seedEntry 1 2, seedEntry 2 1, seedEntry 3 1] ?l)))
        = [seedEntry 0 1, seedEntry 2 1, seedEntry 3 1]"
    unfolding cb f by blast
  then show ?thesis using t swo e unfolding cb by blast
qed

text \<open>
  C6, as amended. \<^verbatim>\<open>remove\<close> on an empty list does not fail, whatever the type of the
  list: it returns \<^verbatim>\<open>undefined\<close>, counts the removal and leaves the list empty. The
  failure comes in the caller: \<^verbatim>\<open>getPlaceFromLDV\<close> throws a \<^verbatim>\<open>TypeError\<close> when it
  reads the entry that is not there.
\<close>

theorem remove_on_empty_returns_undefined:
  assumes "isEmpty l"
  shows "remove r l = (None, l\<lparr> removeCount := removeCount l + 1 \<rparr>)
       \<and> isEmpty (snd (remove r l))
       \<and> (ldv s = l \<longrightarrow> (\<exists>s'. getPlaceFromLDV g s = Inl (TypeError, s')))"
  using assms remove_empty_any [of l r] remove_empty_any [of l "mathRandom s (randomCalls s)"]
  by (simp add: isEmpty_def getPlaceFromLDV_def)

theorem remove_on_empty_returns_undefined_witness:
  "isEmpty (newHDXLinear QUEUE (\<lambda>a b :: LDVEntry. val a < val b))
   \<and> remove (0, 1) (newHDXLinear QUEUE (\<lambda>a b :: LDVEntry. val a < val b))
       = (None, (newHDXLinear QUEUE (\<lambda>a b :: LDVEntry. val a < val b))\<lparr> removeCount := 1 \<rparr>)"
proof -
  let ?l = "newHDXLinear QUEUE (\<lambda>a b :: LDVEntry. val a < val b)"
  have e: "isEmpty ?l"
    by (simp add: isEmpty_def newHDXLinear_def)
  have "remove (0, 1) ?l = (None, ?l\<lparr> removeCount := removeCount ?l + 1 \<rparr>)"
    using remove_on_empty_returns_undefined [OF e, of "(0, 1)"] by blast
  moreover have "?l\<lparr> removeCount := removeCount ?l + 1 \<rparr> = ?l\<lparr> removeCount := 1 \<rparr>"
    by (simp add: newHDXLinear_def)
  ultimately show ?thesis using e by metis
qed

text \<open>
  C6 as stated fails: on an empty stack \<^verbatim>\<open>remove\<close> runs to its end, counts the
  removal and returns \<^verbatim>\<open>undefined\<close>.
\<close>

theorem remove_on_empty_counterexample:
  "isEmpty (HDXLinear STACK :: real HDXLinear)
   \<and> remove (0, 1) (HDXLinear STACK :: real HDXLinear)
       = (None, (HDXLinear STACK)\<lparr> removeCount := 1 \<rparr>)"
  by (simp add: isEmpty_def HDXLinear_def remove_def)



section \<open>The scheduler\<close>

lemma setStatus_eq: "setStatus n s = s\<lparr> status := n \<rparr>"
  by (simp add: setStatus_def)

text \<open>
  C5. When \<^verbatim>\<open>nextAction\<close> is the label of no action of the table, \<^verbatim>\<open>oneAction\<close> alerts
  the internal error, sets the status to paused and ends in a throw; the state at
  the throw differs from the state before in the alert and the status only, so no
  action has run. An iteration ends the same way, and a step of \<^verbatim>\<open>nextStep\<close>
  schedules no callback.
\<close>

theorem unknown_action_pauses_and_reports:
  assumes "lookupAction (nextAction s) acts = None"
  shows "oneAction acts s =
           Inl (TypeError,
                s\<lparr> alerts := alerts s @ [''HDX Internal error: bad AV action: '' @ nextAction s],
                   status := AV_PAUSED \<rparr>)
       \<and> oneIteration acts s =
           Some (Inl (TypeError,
                s\<lparr> iterationDone := False,
                   alerts := alerts s @ [''HDX Internal error: bad AV action: '' @ nextAction s],
                   status := AV_PAUSED \<rparr>))
       \<and> (\<not> paused s \<and> delay s \<noteq> 0 \<and> traceActions s \<longrightarrow>
            nextStep acts s =
              Some (Inl (TypeError,
                s\<lparr> alerts := alerts s @ [''HDX Internal error: bad AV action: '' @ nextAction s],
                   status := AV_PAUSED \<rparr>)))"
proof -
  have a: "oneAction acts t =
           Inl (TypeError,
                t\<lparr> alerts := alerts t @ [''HDX Internal error: bad AV action: '' @ nextAction t],
                   status := AV_PAUSED \<rparr>)"
    if "nextAction t = nextAction s" for t
    using assms that by (simp add: oneAction_def setStatus_eq)
  have b: "oneIteration acts s =
           Some (Inl (TypeError,
                s\<lparr> iterationDone := False,
                   alerts := alerts s @ [''HDX Internal error: bad AV action: '' @ nextAction s],
                   status := AV_PAUSED \<rparr>))"
    unfolding oneIteration_def
    by (subst oneIterationLoop.simps) (simp add: a)
  have c: "\<not> paused s \<and> delay s \<noteq> 0 \<and> traceActions s \<longrightarrow>
            nextStep acts s =
              Some (Inl (TypeError,
                s\<lparr> alerts := alerts s @ [''HDX Internal error: bad AV action: '' @ nextAction s],
                   status := AV_PAUSED \<rparr>))"
    by (simp add: nextStep_def a setStatus_eq)
  show ?thesis using a [of s] b c by simp
qed

theorem unknown_action_pauses_and_reports_witness:
  "lookupAction (nextAction selectedState) bfsActions = None
   \<and> oneAction bfsActions selectedState =
       Inl (TypeError,
            selectedState\<lparr> alerts := [''HDX Internal error: bad AV action: UNDEFINED''],
                           status := AV_PAUSED \<rparr>)"
proof -
  have l: "lookupAction (nextAction selectedState) bfsActions = None"
    by (simp add: selectedState_def hdxTraversalsSpanningAVCommon_def bfsActions_def avActions_def)
  have "oneAction bfsActions selectedState =
           Inl (TypeError,
                selectedState\<lparr> alerts := alerts selectedState @
                      [''HDX Internal error: bad AV action: '' @ nextAction selectedState],
                   status := AV_PAUSED \<rparr>)"
    using unknown_action_pauses_and_reports [OF l] by blast
  moreover have "alerts selectedState @
        [''HDX Internal error: bad AV action: '' @ nextAction selectedState]
      = [''HDX Internal error: bad AV action: UNDEFINED'']"
    by (simp add: selectedState_def hdxTraversalsSpanningAVCommon_def)
  ultimately show ?thesis using l by simp
qed

lemma fireTimeouts_paused:
  "paused s \<Longrightarrow> timeouts s = n \<Longrightarrow> fireTimeouts acts s = Some (s\<lparr> timeouts := 0 \<rparr>)"
proof (induction n arbitrary: s)
  case 0
  then show ?case by (subst fireTimeouts.simps) simp
next
  case (Suc n)
  have p: "paused (s\<lparr> timeouts := n \<rparr>)" using Suc.prems by (simp add: paused_def)
  have "fireTimeouts acts s = fireTimeouts acts (s\<lparr> timeouts := n \<rparr>)"
    using Suc.prems p by (subst fireTimeouts.simps) (simp add: nextStep_def)
  also have "\<dots> = Some (s\<lparr> timeouts := n, timeouts := 0 \<rparr>)"
    by (rule Suc.IH [OF p]) simp
  finally show ?case by simp
qed

text \<open>
  C9, as amended. While the status is paused, a callback that fires does nothing:
  \<^verbatim>\<open>nextStep\<close> returns with the state as it was, and all pending callbacks fire
  without any other change than their being gone.
\<close>

theorem paused_continuation_does_nothing:
  assumes "paused s"
  shows "nextStep acts s = Some (Inr s)
       \<and> fireTimeouts acts s = Some (s\<lparr> timeouts := 0 \<rparr>)"
  using assms fireTimeouts_paused [OF assms refl] by (simp add: nextStep_def)

theorem paused_continuation_does_nothing_witness:
  "paused (setStatus AV_PAUSED staleContinuation)
   \<and> timeouts (setStatus AV_PAUSED staleContinuation) = 1
   \<and> fireTimeouts bfsActions (setStatus AV_PAUSED staleContinuation)
       = Some ((setStatus AV_PAUSED staleContinuation)\<lparr> timeouts := 0 \<rparr>)"
proof -
  have p: "paused (setStatus AV_PAUSED staleContinuation)"
    by (simp add: paused_def setStatus_eq)
  have "timeouts (setStatus AV_PAUSED staleContinuation) = 1"
    by code_simp
  then show ?thesis using paused_continuation_does_nothing [OF p] p by blast
qed

text \<open>
  C9 as stated fails for a status other than paused. With the status at
  \<^verbatim>\<open>AV_SELECTED\<close> the pending callback runs the action \<^verbatim>\<open>checkEndAdded\<close>, and the
  callbacks it schedules in turn run the traversal to its end.
\<close>

theorem stale_continuation_counterexample:
  "status staleContinuation = AV_SELECTED
   \<and> timeouts staleContinuation = 1
   \<and> nextAction staleContinuation = ''checkEndAdded''
   \<and> map_option (nextAction \<circ> resultState) (nextStep bfsActions staleContinuation)
       = Some ''checkLDVEmpty''
   \<and> map_option (map vIndex \<circ> foundTable) (fireTimeouts bfsActions staleContinuation)
       = Some [0, 1]
   \<and> map_option status (fireTimeouts bfsActions staleContinuation) = Some AV_COMPLETE"
  by code_simp



section \<open>The arrays of added and discovered vertices and edges\<close>

lemma arrayGet_arraySetTrue: "arrayGet (arraySetTrue xs i) j \<longleftrightarrow> j = i \<or> arrayGet xs j"
proof (cases "i < length xs")
  case True
  then show ?thesis by (auto simp: arrayGet_def arraySetTrue_def nth_list_update)
next
  case False
  then show ?thesis
    by (auto simp: arrayGet_def arraySetTrue_def nth_append)
qed

lemma bitmapsOnlySet_refl [simp]: "bitmapsOnlySet s s"
  by (simp add: bitmapsOnlySet_def onlyFlipsToTrue_def)

lemma bitmapsOnlySet_trans: "bitmapsOnlySet s t \<Longrightarrow> bitmapsOnlySet t u \<Longrightarrow> bitmapsOnlySet s u"
  by (simp add: bitmapsOnlySet_def onlyFlipsToTrue_def)

lemmas act_simps = resultState_def Let_def bitmapsOnlySet_def onlyFlipsToTrue_def
  arrayGet_arraySetTrue updateMarkerAndTable_def updatePolylineAndTable_def

lemma marks_fold_marker [simp]:
  "addedV (fold (\<lambda>v. updateMarkerAndTable v vs) xs s) = addedV s"
  "discoveredV (fold (\<lambda>v. updateMarkerAndTable v vs) xs s) = discoveredV s"
  "discoveredE (fold (\<lambda>v. updateMarkerAndTable v vs) xs s) = discoveredE s"
  "nextAction (fold (\<lambda>v. updateMarkerAndTable v vs) xs s) = nextAction s"
  "componentEList (fold (\<lambda>v. updateMarkerAndTable v vs) xs s) = componentEList s"
  by (induction xs arbitrary: s) (simp_all add: updateMarkerAndTable_def)

lemma marks_fold_polyline [simp]:
  "addedV (fold (\<lambda>v. updatePolylineAndTable v vs) xs s) = addedV s"
  "discoveredV (fold (\<lambda>v. updatePolylineAndTable v vs) xs s) = discoveredV s"
  "discoveredE (fold (\<lambda>v. updatePolylineAndTable v vs) xs s) = discoveredE s"
  "nextAction (fold (\<lambda>v. updatePolylineAndTable v vs) xs s) = nextAction s"
  by (induction xs arbitrary: s) (simp_all add: updatePolylineAndTable_def)

lemma mono_checkAllComponentsDone: "bitmapsOnlySet s (resultState (checkAllComponentsDone s))"
  by (simp add: checkAllComponentsDone_def act_simps)
lemma mono_checkComponentDone: "bitmapsOnlySet s (resultState (checkComponentDone s))"
  by (simp add: checkComponentDone_def act_simps)
lemma mono_checkEndAdded: "bitmapsOnlySet s (resultState (checkEndAdded s))"
  by (simp add: checkEndAdded_def act_simps)
lemma mono_checkLDVEmpty: "bitmapsOnlySet s (resultState (checkLDVEmpty s))"
  by (simp add: checkLDVEmpty_def act_simps)
lemma mono_LDVEmpty: "bitmapsOnlySet s (resultState (LDVEmpty s))"
  by (simp add: LDVEmpty_def act_simps)
lemma mono_getPlaceFromLDV: "bitmapsOnlySet s (resultState (getPlaceFromLDV g s))"
  by (simp add: getPlaceFromLDV_def act_simps split: prod.splits option.splits)
lemma mono_checkAdded: "bitmapsOnlySet s (resultState (checkAdded s))"
  by (simp add: checkAdded_def act_simps split: option.splits)
lemma mono_wasAdded: "bitmapsOnlySet s (resultState (wasAdded s))"
  by (simp add: wasAdded_def act_simps split: option.splits)
lemma mono_wasNotAdded: "bitmapsOnlySet s (resultState (wasNotAdded g s))"
  by (simp add: wasNotAdded_def act_simps split: option.splits)
lemma mono_checkNeighborsLoopTop: "bitmapsOnlySet s (resultState (checkNeighborsLoopTop g s))"
  by (simp add: checkNeighborsLoopTop_def act_simps split: option.splits sum.splits)
lemma mono_checkNeighborsLoopIf: "bitmapsOnlySet s (resultState (checkNeighborsLoopIf s))"
  by (simp add: checkNeighborsLoopIf_def act_simps)
lemma mono_checkNeighborsLoopIfTrue: "bitmapsOnlySet s (resultState (checkNeighborsLoopIfTrue s))"
  by (simp add: checkNeighborsLoopIfTrue_def act_simps split: option.splits)
lemma mono_checkNeighborsLoopIfFalse:
  "bitmapsOnlySet s (resultState (checkNeighborsLoopIfFalse g vf s))"
  by (simp add: checkNeighborsLoopIfFalse_def act_simps split: option.splits sum.splits)
lemma mono_finalizeComponent: "bitmapsOnlySet s (resultState (finalizeComponent s))"
  by (simp add: finalizeComponent_def act_simps)
lemma mono_checkAnyUnadded: "bitmapsOnlySet s (resultState (checkAnyUnadded g s))"
  by (simp add: checkAnyUnadded_def act_simps)
lemma mono_startNewComponent: "bitmapsOnlySet s (resultState (startNewComponent g s))"
  by (simp add: startNewComponent_def LDVEntry_def act_simps)
lemma mono_doneToTrue: "bitmapsOnlySet s (resultState (doneToTrue s))"
  by (simp add: doneToTrue_def act_simps)
lemma mono_cleanup: "bitmapsOnlySet s (resultState (cleanup s))"
  by (simp add: cleanup_def act_simps split: option.splits prod.splits)


lemmas nx_simps = resultState_def Let_def updateMarkerAndTable_def updatePolylineAndTable_def
  loopTop_def nextNeighborAction_def

lemma notSTART_checkAllComponentsDone:
  "nextAction s \<noteq> ''START'' \<Longrightarrow> nextAction (resultState (checkAllComponentsDone s)) \<noteq> ''START''"
  by (simp add: checkAllComponentsDone_def nx_simps)

lemma notSTART_checkComponentDone:
  "nextAction s \<noteq> ''START'' \<Longrightarrow> nextAction (resultState (checkComponentDone s)) \<noteq> ''START''"
  by (simp add: checkComponentDone_def nx_simps)

lemma notSTART_checkEndAdded:
  "nextAction s \<noteq> ''START'' \<Longrightarrow> nextAction (resultState (checkEndAdded s)) \<noteq> ''START''"
  by (simp add: checkEndAdded_def nx_simps split: option.splits)

lemma notSTART_checkLDVEmpty:
  "nextAction s \<noteq> ''START'' \<Longrightarrow> nextAction (resultState (checkLDVEmpty s)) \<noteq> ''START''"
  by (simp add: checkLDVEmpty_def nx_simps)

lemma notSTART_LDVEmpty:
  "nextAction s \<noteq> ''START'' \<Longrightarrow> nextAction (resultState (LDVEmpty s)) \<noteq> ''START''"
  by (simp add: LDVEmpty_def nx_simps)

lemma notSTART_getPlaceFromLDV:
  "nextAction s \<noteq> ''START'' \<Longrightarrow> nextAction (resultState (getPlaceFromLDV g s)) \<noteq> ''START''"
  by (simp add: getPlaceFromLDV_def nx_simps split: prod.splits option.splits)

lemma notSTART_checkAdded:
  "nextAction s \<noteq> ''START'' \<Longrightarrow> nextAction (resultState (checkAdded s)) \<noteq> ''START''"
  by (simp add: checkAdded_def nx_simps split: option.splits)

lemma notSTART_wasAdded:
  "nextAction s \<noteq> ''START'' \<Longrightarrow> nextAction (resultState (wasAdded s)) \<noteq> ''START''"
  by (simp add: wasAdded_def nx_simps split: option.splits)

lemma notSTART_wasNotAdded:
  "nextAction s \<noteq> ''START'' \<Longrightarrow> nextAction (resultState (wasNotAdded g s)) \<noteq> ''START''"
  by (simp add: wasNotAdded_def nx_simps split: option.splits)

lemma notSTART_checkNeighborsLoopTop:
  "nextAction s \<noteq> ''START'' \<Longrightarrow> nextAction (resultState (checkNeighborsLoopTop g s)) \<noteq> ''START''"
  by (simp add: checkNeighborsLoopTop_def nx_simps split: option.splits sum.splits)

lemma notSTART_checkNeighborsLoopIf:
  "nextAction s \<noteq> ''START'' \<Longrightarrow> nextAction (resultState (checkNeighborsLoopIf s)) \<noteq> ''START''"
  by (simp add: checkNeighborsLoopIf_def nx_simps)

lemma notSTART_checkNeighborsLoopIfTrue:
  "nextAction s \<noteq> ''START'' \<Longrightarrow> nextAction (resultState (checkNeighborsLoopIfTrue s)) \<noteq> ''START''"
  by (simp add: checkNeighborsLoopIfTrue_def nx_simps split: option.splits)

lemma notSTART_checkNeighborsLoopIfFalse:
  "nextAction s \<noteq> ''START'' \<Longrightarrow> nextAction (resultState (checkNeighborsLoopIfFalse g vf s)) \<noteq> ''START''"
  by (simp add: checkNeighborsLoopIfFalse_def nx_simps split: option.splits sum.splits)

lemma notSTART_finalizeComponent:
  "nextAction s \<noteq> ''START'' \<Longrightarrow> nextAction (resultState (finalizeComponent s)) \<noteq> ''START''"
  by (simp add: finalizeComponent_def nx_simps)

lemma notSTART_checkAnyUnadded:
  "nextAction s \<noteq> ''START'' \<Longrightarrow> nextAction (resultState (checkAnyUnadded g s)) \<noteq> ''START''"
  by (simp add: checkAnyUnadded_def nx_simps)

lemma notSTART_startNewComponent:
  "nextAction s \<noteq> ''START'' \<Longrightarrow> nextAction (resultState (startNewComponent g s)) \<noteq> ''START''"
  by (simp add: startNewComponent_def LDVEntry_def nx_simps)

lemma notSTART_doneToTrue:
  "nextAction s \<noteq> ''START'' \<Longrightarrow> nextAction (resultState (doneToTrue s)) \<noteq> ''START''"
  by (simp add: doneToTrue_def nx_simps)

lemma notSTART_cleanup:
  "nextAction s \<noteq> ''START'' \<Longrightarrow> nextAction (resultState (cleanup s)) \<noteq> ''START''"
  by (simp add: cleanup_def nx_simps split: option.splits prod.splits)

lemmas notSTART_others = notSTART_checkAllComponentsDone notSTART_checkComponentDone
  notSTART_checkEndAdded notSTART_checkLDVEmpty notSTART_LDVEmpty notSTART_getPlaceFromLDV
  notSTART_checkAdded notSTART_wasAdded notSTART_wasNotAdded notSTART_checkNeighborsLoopTop
  notSTART_checkNeighborsLoopIf notSTART_checkNeighborsLoopIfTrue
  notSTART_checkNeighborsLoopIfFalse notSTART_finalizeComponent notSTART_checkAnyUnadded
  notSTART_startNewComponent notSTART_doneToTrue notSTART_cleanup

lemmas mono_others = mono_checkAllComponentsDone mono_checkComponentDone
  mono_checkEndAdded mono_checkLDVEmpty mono_LDVEmpty mono_getPlaceFromLDV mono_checkAdded
  mono_wasAdded mono_wasNotAdded mono_checkNeighborsLoopTop mono_checkNeighborsLoopIf
  mono_checkNeighborsLoopIfTrue mono_checkNeighborsLoopIfFalse mono_finalizeComponent
  mono_checkAnyUnadded mono_startNewComponent mono_doneToTrue mono_cleanup

lemma oneAction_avActions:
  "oneAction (avActions g vf) s =
     (if nextAction s = ''START'' then START g s
      else if nextAction s = ''checkAllComponentsDone'' then checkAllComponentsDone s
      else if nextAction s = ''checkComponentDone'' then checkComponentDone s
      else if nextAction s = ''checkEndAdded'' then checkEndAdded s
      else if nextAction s = ''checkLDVEmpty'' then checkLDVEmpty s
      else if nextAction s = ''LDVEmpty'' then LDVEmpty s
      else if nextAction s = ''getPlaceFromLDV'' then getPlaceFromLDV g s
      else if nextAction s = ''checkAdded'' then checkAdded s
      else if nextAction s = ''wasAdded'' then wasAdded s
      else if nextAction s = ''wasNotAdded'' then wasNotAdded g s
      else if nextAction s = ''checkNeighborsLoopTop'' then checkNeighborsLoopTop g s
      else if nextAction s = ''checkNeighborsLoopIf'' then checkNeighborsLoopIf s
      else if nextAction s = ''checkNeighborsLoopIfTrue'' then checkNeighborsLoopIfTrue s
      else if nextAction s = ''checkNeighborsLoopIfFalse'' then checkNeighborsLoopIfFalse g vf s
      else if nextAction s = ''finalizeComponent'' then finalizeComponent s
      else if nextAction s = ''checkAnyUnadded'' then checkAnyUnadded g s
      else if nextAction s = ''startNewComponent'' then startNewComponent g s
      else if nextAction s = ''doneToTrue'' then doneToTrue s
      else if nextAction s = ''cleanup'' then cleanup s
      else Inl (TypeError, setStatus AV_PAUSED
             (s\<lparr> alerts := alerts s @
                  [''HDX Internal error: bad AV action: '' @ nextAction s] \<rparr>)))"
  by (simp add: oneAction_def avActions_def)

text \<open>The action that \<^verbatim>\<open>oneAction\<close> finds for each label of the table.\<close>

lemma oneAction_label:
  "nextAction s = ''START'' \<Longrightarrow> oneAction (avActions g vf) s = START g s"
  "nextAction s = ''checkAllComponentsDone'' \<Longrightarrow> oneAction (avActions g vf) s = checkAllComponentsDone s"
  "nextAction s = ''checkComponentDone'' \<Longrightarrow> oneAction (avActions g vf) s = checkComponentDone s"
  "nextAction s = ''checkEndAdded'' \<Longrightarrow> oneAction (avActions g vf) s = checkEndAdded s"
  "nextAction s = ''checkLDVEmpty'' \<Longrightarrow> oneAction (avActions g vf) s = checkLDVEmpty s"
  "nextAction s = ''LDVEmpty'' \<Longrightarrow> oneAction (avActions g vf) s = LDVEmpty s"
  "nextAction s = ''getPlaceFromLDV'' \<Longrightarrow> oneAction (avActions g vf) s = getPlaceFromLDV g s"
  "nextAction s = ''checkAdded'' \<Longrightarrow> oneAction (avActions g vf) s = checkAdded s"
  "nextAction s = ''wasAdded'' \<Longrightarrow> oneAction (avActions g vf) s = wasAdded s"
  "nextAction s = ''wasNotAdded'' \<Longrightarrow> oneAction (avActions g vf) s = wasNotAdded g s"
  "nextAction s = ''checkNeighborsLoopTop'' \<Longrightarrow> oneAction (avActions g vf) s = checkNeighborsLoopTop g s"
  "nextAction s = ''checkNeighborsLoopIf'' \<Longrightarrow> oneAction (avActions g vf) s = checkNeighborsLoopIf s"
  "nextAction s = ''checkNeighborsLoopIfTrue'' \<Longrightarrow> oneAction (avActions g vf) s = checkNeighborsLoopIfTrue s"
  "nextAction s = ''checkNeighborsLoopIfFalse'' \<Longrightarrow> oneAction (avActions g vf) s = checkNeighborsLoopIfFalse g vf s"
  "nextAction s = ''finalizeComponent'' \<Longrightarrow> oneAction (avActions g vf) s = finalizeComponent s"
  "nextAction s = ''checkAnyUnadded'' \<Longrightarrow> oneAction (avActions g vf) s = checkAnyUnadded g s"
  "nextAction s = ''startNewComponent'' \<Longrightarrow> oneAction (avActions g vf) s = startNewComponent g s"
  "nextAction s = ''doneToTrue'' \<Longrightarrow> oneAction (avActions g vf) s = doneToTrue s"
  "nextAction s = ''cleanup'' \<Longrightarrow> oneAction (avActions g vf) s = cleanup s"
  by (simp_all add: oneAction_avActions)

lemma mono_unknown:
  "bitmapsOnlySet s (resultState (Inl (TypeError, setStatus AV_PAUSED
          (s\<lparr> alerts := alerts s @ [''HDX Internal error: bad AV action: '' @ nextAction s] \<rparr>))))"
  by (simp add: resultState_def setStatus_def bitmapsOnlySet_def onlyFlipsToTrue_def)

lemma notSTART_unknown:
  "nextAction s \<noteq> ''START'' \<Longrightarrow>
   nextAction (resultState (Inl (TypeError, setStatus AV_PAUSED
          (s\<lparr> alerts := alerts s @ [''HDX Internal error: bad AV action: '' @ nextAction s] \<rparr>))))
     \<noteq> ''START''"
  by (simp add: resultState_def setStatus_def)

lemma oneAction_bitmaps:
  assumes "nextAction s \<noteq> ''START''"
  shows "bitmapsOnlySet s (resultState (oneAction (avActions g vf) s))
       \<and> nextAction (resultState (oneAction (avActions g vf) s)) \<noteq> ''START''"
  unfolding oneAction_avActions
  using assms notSTART_others [OF assms] notSTART_unknown [OF assms]
  by (simp only: if_False mono_others mono_unknown simp_thms split: if_split)

lemma actionsN_bitmaps:
  "nextAction s \<noteq> ''START'' \<Longrightarrow>
   bitmapsOnlySet s (resultState (actionsN k (avActions g vf) s))"
proof (induction k arbitrary: s)
  case 0
  show ?case by (simp add: resultState_def)
next
  case (Suc k)
  show ?case
  proof (cases "oneAction (avActions g vf) s")
    case (Inl e)
    with oneAction_bitmaps [OF Suc.prems, of g vf] show ?thesis by simp
  next
    case (Inr t)
    with oneAction_bitmaps [OF Suc.prems, of g vf]
    have st: "bitmapsOnlySet s t" and nt: "nextAction t \<noteq> ''START''"
      by (simp_all add: resultState_def)
    from Suc.IH [OF nt] st Inr show ?thesis
      by (simp add: bitmapsOnlySet_trans)
  qed
qed

lemma START_exit:
  "addedV (resultState (START g s)) = replicate (length (waypoints g)) False
   \<and> discoveredE (resultState (START g s)) = replicate (length (graphEdges g)) False
   \<and> (discoveredV (resultState (START g s)) = replicate (length (waypoints g)) False
        \<or> discoveredV (resultState (START g s))
            = arraySetTrue (replicate (length (waypoints g)) False) (startPoint s))"
  by (simp add: START_def LDVEntry_def Let_def updateMarkerAndTable_def resultState_def)

lemma START_returns_iff:
  "(\<exists>t. START g s = Inr t) \<longleftrightarrow>
     startPoint s < length (waypoints g) \<and>
     (stoppingCondition s = StopAtEnd \<longrightarrow> endPoint s < length (waypoints g))"
  by (simp add: START_def LDVEntry_def Let_def updateMarkerAndTable_def)

lemma START_returns:
  assumes "START g s = Inr t"
  shows "discoveredV t = arraySetTrue (replicate (length (waypoints g)) False) (startPoint s)
         \<and> nextAction t \<noteq> ''START''"
proof -
  from assms have r: "startPoint s < length (waypoints g)"
    "stoppingCondition s = StopAtEnd \<longrightarrow> endPoint s < length (waypoints g)"
    using START_returns_iff [of g s] by blast+
  from assms r show ?thesis
    by (cases "stoppingCondition s")
      (auto simp: START_def LDVEntry_def Let_def updateMarkerAndTable_def)
qed

text \<open>
  C8. \<^verbatim>\<open>START\<close> makes the three arrays anew, filled with false: when it is left, by
  its end or by the throw for a vertex input beyond the waypoints, the arrays of the
  added vertices and of the discovered edges are false throughout, and the array of
  the discovered vertices is false throughout or has the start vertex alone marked.
  \<^verbatim>\<open>START\<close> reaches its end exactly when the vertex inputs are waypoints, then the
  start vertex is marked as discovered and the next action is another one. From any
  state whose next action is not \<^verbatim>\<open>START\<close>, any number of actions leaves true every
  entry that was true: no action but \<^verbatim>\<open>START\<close> resets an entry, and no action sets
  the next action to \<^verbatim>\<open>START\<close>.
\<close>

theorem bitmaps_initialised_then_only_set:
  "addedV (resultState (START g s)) = replicate (length (waypoints g)) False
   \<and> discoveredE (resultState (START g s)) = replicate (length (graphEdges g)) False
   \<and> (discoveredV (resultState (START g s)) = replicate (length (waypoints g)) False
        \<or> discoveredV (resultState (START g s))
            = arraySetTrue (replicate (length (waypoints g)) False) (startPoint s))
   \<and> ((\<exists>t. START g s = Inr t) \<longleftrightarrow>
          startPoint s < length (waypoints g) \<and>
          (stoppingCondition s = StopAtEnd \<longrightarrow> endPoint s < length (waypoints g)))
   \<and> (\<forall>t. START g s = Inr t \<longrightarrow>
          discoveredV t = arraySetTrue (replicate (length (waypoints g)) False) (startPoint s)
          \<and> nextAction t \<noteq> ''START'')
   \<and> (nextAction s \<noteq> ''START'' \<longrightarrow>
        bitmapsOnlySet s (resultState (actionsN k (avActions g vf) s)))"
  using START_exit [of g s] START_returns_iff [of g s] START_returns [of g s]
    actionsN_bitmaps [of s k g vf]
  by blast

text \<open>
  The theorem on the graph with the edges 0-1 and 2-3. \<^verbatim>\<open>START\<close> on the selected
  breadth-first traversal from vertex 0 to vertex 1 reaches its end with vertex 0
  alone discovered; six actions later, from a state whose next action is not
  \<^verbatim>\<open>START\<close>, vertex 0 has been added and nothing has been reset.
\<close>

theorem bitmaps_initialised_then_only_set_witness:
  "startPoint selectedState < length (waypoints twoPairs)
   \<and> endPoint selectedState < length (waypoints twoPairs)
   \<and> (\<exists>t. START twoPairs selectedState = Inr t
          \<and> discoveredV t = [True, False, False, False] \<and> nextAction t \<noteq> ''START'')
   \<and> addedV (resultState (START twoPairs selectedState)) = [False, False, False, False]
   \<and> discoveredE (resultState (START twoPairs selectedState)) = [False, False]
   \<and> nextAction staleContinuation \<noteq> ''START''
   \<and> bitmapsOnlySet staleContinuation (resultState (actionsN 6 bfsActions staleContinuation))
   \<and> addedV staleContinuation = [False, False, False, False]
   \<and> addedV (resultState (actionsN 6 bfsActions staleContinuation)) = [True, False, False, False]"
proof -
  have sp: "startPoint selectedState < length (waypoints twoPairs)" by code_simp
  have ep: "endPoint selectedState < length (waypoints twoPairs)" by code_simp
  have d: "arraySetTrue (replicate (length (waypoints twoPairs)) False) (startPoint selectedState)
           = [True, False, False, False]" by code_simp
  have ra: "replicate (length (waypoints twoPairs)) False = [False, False, False, False]"
    by code_simp
  have re: "replicate (length (graphEdges twoPairs)) False = [False, False]" by code_simp
  have n: "nextAction staleContinuation \<noteq> ''START''" by code_simp
  have a: "addedV staleContinuation = [False, False, False, False]" by code_simp
  have b: "addedV (resultState (actionsN 6 bfsActions staleContinuation))
           = [True, False, False, False]" by code_simp
  note st = bitmaps_initialised_then_only_set [where g = twoPairs and s = selectedState
         and k = 0 and vf = "valForLDVEntry (hdxGraphTraversalsAV ''BFS'')"]
  from st sp ep obtain t where t: "START twoPairs selectedState = Inr t" by blast
  with st have "discoveredV t = [True, False, False, False] \<and> nextAction t \<noteq> ''START''"
    unfolding d by blast
  with t have ex: "\<exists>t. START twoPairs selectedState = Inr t
          \<and> discoveredV t = [True, False, False, False] \<and> nextAction t \<noteq> ''START''" by blast
  from st have e: "addedV (resultState (START twoPairs selectedState)) = [False, False, False, False]"
    "discoveredE (resultState (START twoPairs selectedState)) = [False, False]"
    unfolding ra re by blast+
  from bitmaps_initialised_then_only_set [where g = twoPairs and s = staleContinuation
         and k = 6 and vf = "valForLDVEntry (hdxGraphTraversalsAV ''BFS'')"] n
  have m: "bitmapsOnlySet staleContinuation (resultState (actionsN 6 bfsActions staleContinuation))"
    unfolding bfsActions_def by blast
  from sp ep ex e n m a b show ?thesis by blast
qed



section \<open>Dijkstra's algorithm on a cycle\<close>







section \<open>One iteration of the main loop\<close>

lemma actionsN_add:
  "actionsN (m + n) acts s =
     (case actionsN m acts s of Inl e \<Rightarrow> Inl e | Inr t \<Rightarrow> actionsN n acts t)"
  by (induction m arbitrary: s) (simp_all split: sum.splits)

lemma two_actions_neighbor:
  assumes v: "visiting u = Some entry"
    and ns: "neighborsToLoop u = ns @ [n]"
    and na: "nextAction u = ''checkNeighborsLoopIf''"
    and ok: "via n < length (graphEdges g)"
  shows "actionsN 2 (avActions g vf) u =
           Inr ((spec_discoverEdge g vf entry n u)
                  \<lparr> neighborsToLoop := ns,
                    nextAction := (if ns = [] then loopTop u else ''checkNeighborsLoopIf'') \<rparr>)"
proof (cases "arrayGet (addedV u) (to n)")
  case True
  let ?u1 = "u\<lparr> nextNeighbor := Some n, neighborsToLoop := ns,
                nextAction := ''checkNeighborsLoopIfTrue'' \<rparr>"
  have 1: "oneAction (avActions g vf) u = Inr ?u1"
    using True ns na by (simp add: oneAction_label checkNeighborsLoopIf_def)
  have 2: "oneAction (avActions g vf) ?u1 =
           Inr ((spec_discoverEdge g vf entry n u)
                  \<lparr> neighborsToLoop := ns,
                    nextAction := (if ns = [] then loopTop u else ''checkNeighborsLoopIf'') \<rparr>)"
    using True
    by (simp add: oneAction_label checkNeighborsLoopIfTrue_def
        spec_discoverEdge_def updatePolylineAndTable_def nextNeighborAction_def loopTop_def Let_def)
  show ?thesis by (simp add: numeral_2_eq_2 1 2)
next
  case False
  let ?u1 = "u\<lparr> nextNeighbor := Some n, neighborsToLoop := ns,
                nextAction := ''checkNeighborsLoopIfFalse'' \<rparr>"
  have 1: "oneAction (avActions g vf) u = Inr ?u1"
    using False ns na by (simp add: oneAction_label checkNeighborsLoopIf_def)
  have 2: "oneAction (avActions g vf) ?u1 =
           Inr ((spec_discoverEdge g vf entry n u)
                  \<lparr> neighborsToLoop := ns,
                    nextAction := (if ns = [] then loopTop u else ''checkNeighborsLoopIf'') \<rparr>)"
    using False v ok
    by (simp add: oneAction_label checkNeighborsLoopIfFalse_def
        spec_discoverEdge_def updatePolylineAndTable_def updateMarkerAndTable_def
        nextNeighborAction_def loopTop_def Let_def LDVEntry_def otherEnd_def)
  show ?thesis by (simp add: numeral_2_eq_2 1 2)
qed


lemma spec_discoverEdge_bookkeeping:
  "spec_discoverEdge g vf entry n (s\<lparr> neighborsToLoop := ns, nextAction := a \<rparr>) =
   (spec_discoverEdge g vf entry n s)\<lparr> neighborsToLoop := ns, nextAction := a \<rparr>"
  by (simp add: spec_discoverEdge_def)

lemma fold_spec_discoverEdge_bookkeeping:
  "fold (spec_discoverEdge g vf entry) xs (s\<lparr> neighborsToLoop := ns, nextAction := a \<rparr>) =
   (fold (spec_discoverEdge g vf entry) xs s)\<lparr> neighborsToLoop := ns, nextAction := a \<rparr>"
  by (induction xs arbitrary: s) (simp_all add: spec_discoverEdge_bookkeeping)

lemma spec_discoverEdge_keeps [simp]:
  "visiting (spec_discoverEdge g vf entry n s) = visiting s"
  "stoppingCondition (spec_discoverEdge g vf entry n s) = stoppingCondition s"
  by (simp_all add: spec_discoverEdge_def)

lemma fold_spec_discoverEdge_keeps [simp]:
  "stoppingCondition (fold (spec_discoverEdge g vf entry) xs s) = stoppingCondition s"
  by (induction xs arbitrary: s) simp_all

lemma neighbor_loop:
  assumes "visiting u = Some entry"
    and "neighborsToLoop u = ns"
    and "ns \<noteq> []"
    and "nextAction u = ''checkNeighborsLoopIf''"
    and "\<forall>n \<in> set ns. via n < length (graphEdges g)"
  shows "actionsN (2 * length ns) (avActions g vf) u =
           Inr ((fold (spec_discoverEdge g vf entry) (rev ns) u)
                  \<lparr> neighborsToLoop := [], nextAction := loopTop u \<rparr>)"
  using assms
proof (induction ns arbitrary: u rule: rev_induct)
  case Nil
  then show ?case by simp
next
  case (snoc n ns)
  let ?u2 = "(spec_discoverEdge g vf entry n u)
                  \<lparr> neighborsToLoop := ns,
                    nextAction := (if ns = [] then loopTop u else ''checkNeighborsLoopIf'') \<rparr>"
  have two: "actionsN 2 (avActions g vf) u = Inr ?u2"
    using snoc.prems by (intro two_actions_neighbor) simp_all
  have split: "actionsN (2 * length (ns @ [n])) (avActions g vf) u =
        actionsN (2 * length ns) (avActions g vf) ?u2"
    using actionsN_add [of 2 "2 * length ns" "avActions g vf" u] two by simp
  show ?case
  proof (cases "ns = []")
    case True
    then show ?thesis unfolding split by (simp add: loopTop_def)
  next
    case False
    have "actionsN (2 * length ns) (avActions g vf) ?u2 =
           Inr ((fold (spec_discoverEdge g vf entry) (rev ns) ?u2)
                  \<lparr> neighborsToLoop := [], nextAction := loopTop ?u2 \<rparr>)"
      using snoc.prems False by (intro snoc.IH) simp_all
    then show ?thesis unfolding split
      using False by (simp add: fold_spec_discoverEdge_bookkeeping loopTop_def)
  qed
qed



lemma pushed_neighbors:
  "map (\<lambda>(n, e). \<lparr> to = n, via = edgeListIndex e \<rparr>)
     (filter (\<lambda>(n, e). Some (edgeListIndex e) \<noteq> c) (zip (map (otherEnd v) el) el))
   = map (\<lambda>e. \<lparr> to = otherEnd v e, via = edgeListIndex e \<rparr>)
       (filter (\<lambda>e. Some (edgeListIndex e) \<noteq> c) el)"
  by (induction el) simp_all

lemma actionsN_step:
  assumes "oneAction acts s = Inr t"
  shows "actionsN 1 acts s = Inr t"
    and "actionsN 2 acts s = actionsN 1 acts t"
    and "actionsN 3 acts s = actionsN 2 acts t"
    and "actionsN 4 acts s = actionsN 3 acts t"
  using assms by (simp_all add: numeral_eq_Suc)

lemma checkNeighborsLoopTop_simple:
  assumes "visiting s = Some item" and "vIndex item < length (waypoints g)"
  shows "checkNeighborsLoopTop g s =
     Inr (let s1 = s\<lparr> neighborsToLoop := neighborsToLoop s @
                     map (\<lambda>e. \<lparr> to = otherEnd (vIndex item) e, via = edgeListIndex e \<rparr>)
                       (filter (\<lambda>e. Some (edgeListIndex e) \<noteq> connection item)
                          (waypoints g ! vIndex item)) \<rparr>
          in s1\<lparr> nextAction := nextNeighborAction s1 \<rparr>)"
  using assms
  by (simp add: checkNeighborsLoopTop_def getAdjacentPoints_def pushed_neighbors Let_def)

lemma iteration_added:
  assumes na: "nextAction s = ''getPlaceFromLDV''"
    and rm: "remove (mathRandom s (randomCalls s)) (ldv s) = (Some entry, l)"
    and rd: "entryReadable g entry"
    and ad: "arrayGet (addedV s) (vIndex entry)"
  shows "actionsN 3 (avActions g vf) s = Inr (spec_afterRemoval g vf entry l s)"
proof -
  let ?s1 = "s\<lparr> ldv := l, visiting := Some entry,
                  randomCalls := (if type (ldv s) = RANDOM then randomCalls s + 1
                                  else randomCalls s),
                  marks := marks s @ Marker (vIndex entry) vs_visiting #
                    (case connection entry of None \<Rightarrow> []
                     | Some c \<Rightarrow> [Polyline c vs_visiting]),
                  nextAction := ''checkAdded'' \<rparr>"
  have 1: "oneAction (avActions g vf) s = Inr ?s1"
    using na rm rd
    by (cases "connection entry")
       (simp_all add: oneAction_label getPlaceFromLDV_def updateMarkerAndTable_def
          updatePolylineAndTable_def split del: if_split cong: if_cong)
  have 2: "oneAction (avActions g vf) ?s1 = Inr (?s1\<lparr> nextAction := ''wasAdded'' \<rparr>)"
    using ad by (simp add: oneAction_label checkAdded_def split del: if_split cong: if_cong)
  have 3: "oneAction (avActions g vf) (?s1\<lparr> nextAction := ''wasAdded'' \<rparr>) =
           Inr (spec_afterRemoval g vf entry l s)"
    using ad
    by (cases "connection entry"; cases "vIndex entry = startingVertex s";
        cases "Some (vIndex entry) = endingVertex s";
        cases "containsFieldMatching vIndex (vIndex entry) l")
       (simp_all add: oneAction_label wasAdded_def spec_afterRemoval_def updateMarkerAndTable_def
          updatePolylineAndTable_def loopTop_def Let_def
          split del: if_split cong: if_cong)
  have "actionsN 3 (avActions g vf) s = actionsN 2 (avActions g vf) ?s1"
    by (rule actionsN_step [OF 1])
  also have "\<dots> = actionsN 1 (avActions g vf) (?s1\<lparr> nextAction := ''wasAdded'' \<rparr>)"
    by (rule actionsN_step [OF 2])
  also have "\<dots> = Inr (spec_afterRemoval g vf entry l s)"
    by (rule actionsN_step [OF 3])
  finally show ?thesis .
qed

lemma iteration_not_added:
  assumes na: "nextAction s = ''getPlaceFromLDV''"
    and rm: "remove (mathRandom s (randomCalls s)) (ldv s) = (Some entry, l)"
    and ntl: "neighborsToLoop s = []"
    and rd: "foundTableReadable g entry"
    and ed: "\<forall>e \<in> set (waypoints g ! vIndex entry). edgeListIndex e < length (graphEdges g)"
    and ad: "\<not> arrayGet (addedV s) (vIndex entry)"
  shows "actionsN (4 + 2 * length (spec_edgesToProcess g entry)) (avActions g vf) s =
           Inr (spec_afterRemoval g vf entry l s)"
proof -
  let ?v = "vIndex entry"
  let ?s1 = "s\<lparr> ldv := l, visiting := Some entry,
                  randomCalls := (if type (ldv s) = RANDOM then randomCalls s + 1
                                  else randomCalls s),
                  marks := marks s @ Marker ?v vs_visiting #
                    (case connection entry of None \<Rightarrow> []
                     | Some c \<Rightarrow> [Polyline c vs_visiting]),
                  nextAction := ''checkAdded'' \<rparr>"
  let ?s2 = "?s1\<lparr> addedV := arraySetTrue (addedV s) ?v,
                        componentVList := componentVList s @ [?v],
                        numVSpanningTree := numVSpanningTree s + 1,
                        numESpanningTree := (case connection entry of
                                               None \<Rightarrow> numESpanningTree s
                                             | Some c \<Rightarrow> numESpanningTree s + 1),
                        componentEList := (case connection entry of
                                             None \<Rightarrow> componentEList s
                                           | Some c \<Rightarrow> componentEList s @ [c]),
                        foundTable := foundTable s @ [entry],
                        treeEdges := (if stoppingCondition s = StopAtEnd
                                      then treeEdges s @ [entry] else treeEdges s),
                        marks := marks ?s1 @
                          Marker ?v (if ?v = startingVertex s then vs_startVertex
                                    else if Some ?v = endingVertex s then vs_endVertex
                                    else vs_spanningTree) #
                          (case connection entry of None \<Rightarrow> []
                           | Some c \<Rightarrow> [Polyline c vs_spanningTree]) \<rparr>"
  let ?ns = "map (\<lambda>e. \<lparr> to = otherEnd ?v e, via = edgeListIndex e \<rparr>)
              (filter (\<lambda>e. Some (edgeListIndex e) \<noteq> connection entry) (waypoints g ! ?v))"
  from rd have rd': "entryReadable g entry" and vl: "?v < length (waypoints g)"
    by (simp_all add: foundTableReadable_def entryReadable_def)
  have 1: "oneAction (avActions g vf) s = Inr ?s1"
    using na rm rd'
    by (cases "connection entry")
       (simp_all add: oneAction_label getPlaceFromLDV_def updateMarkerAndTable_def
          updatePolylineAndTable_def split del: if_split cong: if_cong)
  have 2: "oneAction (avActions g vf) ?s1 = Inr (?s1\<lparr> nextAction := ''wasNotAdded'' \<rparr>)"
    using ad by (simp add: oneAction_label checkAdded_def split del: if_split cong: if_cong)
  have 3: "oneAction (avActions g vf) (?s1\<lparr> nextAction := ''wasNotAdded'' \<rparr>) =
           Inr (?s2\<lparr> nextAction := ''checkNeighborsLoopTop'' \<rparr>)"
    using rd
    by (cases "connection entry"; cases "vIndex entry = startingVertex s";
        cases "Some (vIndex entry) = endingVertex s"; cases "stoppingCondition s = StopAtEnd")
       (simp_all add: oneAction_label wasNotAdded_def updateMarkerAndTable_def
          updatePolylineAndTable_def Let_def split del: if_split cong: if_cong)
  let ?s4 = "?s2\<lparr> neighborsToLoop := ?ns,
                  nextAction := (if 0 < length ?ns then ''checkNeighborsLoopIf''
                                 else loopTop s) \<rparr>"
  have 4: "oneAction (avActions g vf) (?s2\<lparr> nextAction := ''checkNeighborsLoopTop'' \<rparr>) =
           Inr ?s4"
  proof -
    have "oneAction (avActions g vf) (?s2\<lparr> nextAction := ''checkNeighborsLoopTop'' \<rparr>) =
          checkNeighborsLoopTop g (?s2\<lparr> nextAction := ''checkNeighborsLoopTop'' \<rparr>)"
      by (rule oneAction_label) simp
    also have "\<dots> = Inr ?s4"
      using vl ntl
      by (subst checkNeighborsLoopTop_simple [of _ entry])
         (simp_all add: nextNeighborAction_def loopTop_def Let_def split del: if_split
            cong: if_cong)
    finally show ?thesis .
  qed
  have four: "actionsN 4 (avActions g vf) s = Inr ?s4"
  proof -
    have "actionsN 4 (avActions g vf) s = actionsN 3 (avActions g vf) ?s1"
      by (rule actionsN_step [OF 1])
    also have "\<dots> = actionsN 2 (avActions g vf) (?s1\<lparr> nextAction := ''wasNotAdded'' \<rparr>)"
      by (rule actionsN_step [OF 2])
    also have "\<dots> = actionsN 1 (avActions g vf) (?s2\<lparr> nextAction := ''checkNeighborsLoopTop'' \<rparr>)"
      by (rule actionsN_step [OF 3])
    also have "\<dots> = Inr ?s4"
      by (rule actionsN_step [OF 4])
    finally show ?thesis .
  qed
  have split: "actionsN (4 + 2 * length (spec_edgesToProcess g entry)) (avActions g vf) s =
        actionsN (2 * length ?ns) (avActions g vf) ?s4"
    using actionsN_add [of 4 "2 * length ?ns" "avActions g vf" s] four
    by (simp add: spec_edgesToProcess_def)
  show ?thesis
  proof (cases "?ns = []")
    case True
    then show ?thesis
      unfolding split using ad
      by (simp add: spec_afterRemoval_def spec_edgesToProcess_def Let_def
            split del: if_split cong: if_cong)
  next
    case False
    have "actionsN (2 * length ?ns) (avActions g vf) ?s4 =
           Inr ((fold (spec_discoverEdge g vf entry) (rev ?ns) ?s4)
                  \<lparr> neighborsToLoop := [], nextAction := loopTop ?s4 \<rparr>)"
      using False ed by (intro neighbor_loop) auto
    then show ?thesis
      unfolding split using ad False
      by (simp add: spec_afterRemoval_def spec_edgesToProcess_def Let_def
            fold_spec_discoverEdge_bookkeeping loopTop_def
            split del: if_split cong: if_cong)
  qed
qed

text \<open>
  The iteration that begins with no neighbour pending. From a state whose next
  action is \<^verbatim>\<open>getPlaceFromLDV\<close>, with the list of the neighbours to loop over
  empty, a list that gives up an entry, and a graph in which
  the reads of that entry and of the edges of its vertex succeed, the walk through
  the actions up to the next top of the main loop does what one iteration does in
  the words of the specification: its outcome is the state \<open>spec_iteration\<close>,
  after three actions when the vertex was already added and after four actions and
  two for each edge treated otherwise. The stopping condition is any of the three.
\<close>

theorem main_loop_iteration:
  assumes na: "nextAction s = ''getPlaceFromLDV''"
    and rm: "fst (remove (mathRandom s (randomCalls s)) (ldv s)) = Some entry"
    and ntl: "neighborsToLoop s = []"
    and rd: "foundTableReadable g entry"
    and ed: "\<forall>e \<in> set (waypoints g ! vIndex entry). edgeListIndex e < length (graphEdges g)"
  shows "actionsN (spec_iterationActions g s) (avActions g vf) s = Inr (spec_iteration g vf s)"
proof -
  obtain l where r: "remove (mathRandom s (randomCalls s)) (ldv s) = (Some entry, l)"
    using rm by (cases "remove (mathRandom s (randomCalls s)) (ldv s)") simp
  have spec: "spec_iteration g vf s = spec_afterRemoval g vf entry l s"
    by (simp add: spec_iteration_def r)
  from rd have rd': "entryReadable g entry" by (simp add: foundTableReadable_def)
  show ?thesis
  proof (cases "arrayGet (addedV s) (vIndex entry)")
    case True
    then have "spec_iterationActions g s = 3" by (simp add: spec_iterationActions_def r)
    then show ?thesis using iteration_added [OF na r rd' True, of vf] spec by simp
  next
    case False
    then have "spec_iterationActions g s = 4 + 2 * length (spec_edgesToProcess g entry)"
      by (simp add: spec_iterationActions_def r)
    then show ?thesis using iteration_not_added [OF na r ntl rd ed False, of vf] spec by simp
  qed
qed

theorem main_loop_iteration_witness:
  "nextAction atRemoval = ''getPlaceFromLDV''
   \<and> fst (remove (mathRandom atRemoval (randomCalls atRemoval)) (ldv atRemoval))
       = Some (seedEntry 0 0)
   \<and> neighborsToLoop atRemoval = []
   \<and> foundTableReadable twoPairs (seedEntry 0 0)
   \<and> list_all (\<lambda>e. edgeListIndex e < length (graphEdges twoPairs))
         (waypoints twoPairs ! vIndex (seedEntry 0 0))
   \<and> spec_iterationActions twoPairs atRemoval = 6
   \<and> actionsN 6 bfsActions atRemoval
       = Inr (spec_iteration twoPairs (valForLDVEntry (hdxGraphTraversalsAV ''BFS'')) atRemoval)
   \<and> map vIndex (items (ldv (spec_iteration twoPairs
         (valForLDVEntry (hdxGraphTraversalsAV ''BFS'')) atRemoval))) = [1]
   \<and> addedV (spec_iteration twoPairs
         (valForLDVEntry (hdxGraphTraversalsAV ''BFS'')) atRemoval) = [True, False, False, False]"
proof -
  have na: "nextAction atRemoval = ''getPlaceFromLDV''" by code_simp
  have rm: "fst (remove (mathRandom atRemoval (randomCalls atRemoval)) (ldv atRemoval))
       = Some (seedEntry 0 0)" by code_simp
  have ntl: "neighborsToLoop atRemoval = []" by code_simp
  have rd: "foundTableReadable twoPairs (seedEntry 0 0)" by code_simp
  have el: "list_all (\<lambda>e. edgeListIndex e < length (graphEdges twoPairs))
         (waypoints twoPairs ! vIndex (seedEntry 0 0))" by code_simp
  then have ed: "\<forall>e \<in> set (waypoints twoPairs ! vIndex (seedEntry 0 0)).
         edgeListIndex e < length (graphEdges twoPairs)"
    unfolding list_all_iff .
  have n: "spec_iterationActions twoPairs atRemoval = 6" by code_simp
  have i: "map vIndex (items (ldv (spec_iteration twoPairs
         (valForLDVEntry (hdxGraphTraversalsAV ''BFS'')) atRemoval))) = [1]" by code_simp
  have a: "addedV (spec_iteration twoPairs
         (valForLDVEntry (hdxGraphTraversalsAV ''BFS'')) atRemoval) = [True, False, False, False]"
    by code_simp
  have "actionsN 6 bfsActions atRemoval
       = Inr (spec_iteration twoPairs (valForLDVEntry (hdxGraphTraversalsAV ''BFS'')) atRemoval)"
    using main_loop_iteration [OF na rm ntl rd ed, of "valForLDVEntry (hdxGraphTraversalsAV ''BFS'')"]
    unfolding n bfsActions_def .
  with na rm ntl rd el n i a show ?thesis by blast
qed





section \<open>Run to completion against one action at a time\<close>

text \<open>
  No action of the traversal reads the controller's fields: started from a state and
  from the same state with these fields reset, it gives the same result up to them.
\<close>

lemma mapResult_simps [simp]:
  "mapResult f (Inl (e, s)) = Inl (e, f s)"
  "mapResult f (Inr s) = Inr (f s)"
  by (simp_all add: mapResult_def)

lemma forget_sel [simp]:
  "ldv (forget s) = ldv s" "addedV (forget s) = addedV s" "discoveredV (forget s) = discoveredV s"
  "discoveredE (forget s) = discoveredE s" "stoppingCondition (forget s) = stoppingCondition s"
  "stoppedBecause (forget s) = stoppedBecause s" "componentVList (forget s) = componentVList s"
  "componentEList (forget s) = componentEList s" "startingVertex (forget s) = startingVertex s"
  "endingVertex (forget s) = endingVertex s" "startUnaddedVSearch (forget s) = startUnaddedVSearch s"
  "visiting (forget s) = visiting s" "neighborsToLoop (forget s) = neighborsToLoop s"
  "nextNeighbor (forget s) = nextNeighbor s" "numVSpanningTree (forget s) = numVSpanningTree s"
  "numESpanningTree (forget s) = numESpanningTree s" "numVUndiscovered (forget s) = numVUndiscovered s"
  "numEUndiscovered (forget s) = numEUndiscovered s"
  "numEDiscardedOnDiscovery (forget s) = numEDiscardedOnDiscovery s"
  "numEDiscardedOnRemoval (forget s) = numEDiscardedOnRemoval s"
  "componentNum (forget s) = componentNum s" "treeEdges (forget s) = treeEdges s"
  "allComponentsDone (forget s) = allComponentsDone s" "foundTable (forget s) = foundTable s"
  "marks (forget s) = marks s" "startPoint (forget s) = startPoint s" "endPoint (forget s) = endPoint s"
  by (simp_all add: forget_def)

lemma forget_base [simp]:
  "nextAction (forget s) = nextAction s" "alerts (forget s) = alerts s"
  "mathRandom (forget s) = mathRandom s" "randomCalls (forget s) = randomCalls s"
  by (simp_all add: forget_def)

lemmas ind_simps = forget_def Let_def updateMarkerAndTable_def updatePolylineAndTable_def
  loopTop_def nextNeighborAction_def LDVEntry_def getAdjacentPoints_def

lemmas ind_distribs = if_distrib [of "mapResult forget"] if_distrib [of forget]
  if_distrib [of Inr]

lemma ind_checkAllComponentsDone:
  "mapResult forget (checkAllComponentsDone (forget s)) = mapResult forget (checkAllComponentsDone s)"
  by (cases s)
     (simp add: checkAllComponentsDone_def ind_simps ind_distribs isEmpty_def containsFieldMatching_def
        split: option.splits prod.splits sum.splits)

lemma ind_checkComponentDone:
  "mapResult forget (checkComponentDone (forget s)) = mapResult forget (checkComponentDone s)"
  by (cases s)
     (simp add: checkComponentDone_def ind_simps ind_distribs isEmpty_def containsFieldMatching_def
        split: option.splits prod.splits sum.splits)

lemma ind_checkEndAdded:
  "mapResult forget (checkEndAdded (forget s)) = mapResult forget (checkEndAdded s)"
  by (cases s)
     (simp add: checkEndAdded_def ind_simps ind_distribs isEmpty_def containsFieldMatching_def
        split: option.splits prod.splits sum.splits)

lemma ind_checkLDVEmpty:
  "mapResult forget (checkLDVEmpty (forget s)) = mapResult forget (checkLDVEmpty s)"
  by (cases s)
     (simp add: checkLDVEmpty_def ind_simps ind_distribs isEmpty_def containsFieldMatching_def
        split: option.splits prod.splits sum.splits)

lemma ind_LDVEmpty:
  "mapResult forget (LDVEmpty (forget s)) = mapResult forget (LDVEmpty s)"
  by (cases s)
     (simp add: LDVEmpty_def ind_simps ind_distribs isEmpty_def containsFieldMatching_def
        split: option.splits prod.splits sum.splits)

lemma ind_getPlaceFromLDV:
  "mapResult forget (getPlaceFromLDV g (forget s)) = mapResult forget (getPlaceFromLDV g s)"
  by (cases s)
     (simp add: getPlaceFromLDV_def ind_simps ind_distribs isEmpty_def containsFieldMatching_def
        split: option.splits prod.splits sum.splits)

lemma ind_checkAdded:
  "mapResult forget (checkAdded (forget s)) = mapResult forget (checkAdded s)"
  by (cases s)
     (simp add: checkAdded_def ind_simps ind_distribs isEmpty_def containsFieldMatching_def
        split: option.splits prod.splits sum.splits)

lemma ind_wasAdded:
  "mapResult forget (wasAdded (forget s)) = mapResult forget (wasAdded s)"
  by (cases s)
     (simp add: wasAdded_def ind_simps ind_distribs isEmpty_def containsFieldMatching_def
        split: option.splits prod.splits sum.splits)

lemma ind_checkNeighborsLoopTop:
  "mapResult forget (checkNeighborsLoopTop g (forget s)) = mapResult forget (checkNeighborsLoopTop g s)"
  by (cases s)
     (simp add: checkNeighborsLoopTop_def ind_simps ind_distribs isEmpty_def containsFieldMatching_def
        split: option.splits prod.splits sum.splits)

lemma ind_checkNeighborsLoopIf:
  "mapResult forget (checkNeighborsLoopIf (forget s)) = mapResult forget (checkNeighborsLoopIf s)"
  by (cases s)
     (simp add: checkNeighborsLoopIf_def ind_simps ind_distribs isEmpty_def containsFieldMatching_def
        split: option.splits prod.splits sum.splits)

lemma ind_checkNeighborsLoopIfTrue:
  "mapResult forget (checkNeighborsLoopIfTrue (forget s)) = mapResult forget (checkNeighborsLoopIfTrue s)"
  by (cases s)
     (simp add: checkNeighborsLoopIfTrue_def ind_simps ind_distribs isEmpty_def containsFieldMatching_def
        split: option.splits prod.splits sum.splits)

lemma ind_checkNeighborsLoopIfFalse:
  "mapResult forget (checkNeighborsLoopIfFalse g vf (forget s)) = mapResult forget (checkNeighborsLoopIfFalse g vf s)"
  by (cases s)
     (simp add: checkNeighborsLoopIfFalse_def ind_simps ind_distribs isEmpty_def containsFieldMatching_def
        split: option.splits prod.splits sum.splits)

lemma ind_checkAnyUnadded:
  "mapResult forget (checkAnyUnadded g (forget s)) = mapResult forget (checkAnyUnadded g s)"
  by (cases s)
     (simp add: checkAnyUnadded_def ind_simps ind_distribs isEmpty_def containsFieldMatching_def
        split: option.splits prod.splits sum.splits)

lemma ind_startNewComponent:
  "mapResult forget (startNewComponent g (forget s)) = mapResult forget (startNewComponent g s)"
  by (cases s)
     (simp add: startNewComponent_def ind_simps ind_distribs isEmpty_def containsFieldMatching_def
        split: option.splits prod.splits sum.splits)

lemma ind_doneToTrue:
  "mapResult forget (doneToTrue (forget s)) = mapResult forget (doneToTrue s)"
  by (cases s)
     (simp add: doneToTrue_def ind_simps ind_distribs isEmpty_def containsFieldMatching_def
        split: option.splits prod.splits sum.splits)

lemma ind_cleanup:
  "mapResult forget (cleanup (forget s)) = mapResult forget (cleanup s)"
  by (cases s)
     (simp add: cleanup_def ind_simps ind_distribs isEmpty_def containsFieldMatching_def
        split: option.splits prod.splits sum.splits)

lemma ind_wasNotAdded:
  "mapResult forget (wasNotAdded g (forget s)) = mapResult forget (wasNotAdded g s)"
proof (cases "visiting s")
  case None
  then show ?thesis by (cases s) (simp add: wasNotAdded_def forget_def)
next
  case (Some item)
  then show ?thesis
    by (cases "connection item"; cases "vIndex item = startingVertex s";
        cases "Some (vIndex item) = endingVertex s"; cases "stoppingCondition s = StopAtEnd";
        cases "foundTableReadable g item"; cases s)
       (simp_all add: wasNotAdded_def ind_simps)
qed

lemma ind_START:
  "mapResult forget (START g (forget s)) = mapResult forget (START g s)"
  by (cases "stoppingCondition s"; cases "endPoint s < length (waypoints g)";
      cases "startPoint s < length (waypoints g)"; cases s)
    (simp_all add: START_def ind_simps)

lemma marker_forget:
  "updateMarkerAndTable v vs (forget s) = forget (updateMarkerAndTable v vs s)"
  "updatePolylineAndTable v vs (forget s) = forget (updatePolylineAndTable v vs s)"
  by (simp_all add: updateMarkerAndTable_def updatePolylineAndTable_def forget_def)

lemma fold_marker_forget:
  "fold (\<lambda>v. updateMarkerAndTable v vs) xs (forget s) =
   forget (fold (\<lambda>v. updateMarkerAndTable v vs) xs s)"
  by (induction xs arbitrary: s) (simp_all add: marker_forget)

lemma fold_polyline_forget:
  "fold (\<lambda>v. updatePolylineAndTable v vs) xs (forget s) =
   forget (fold (\<lambda>v. updatePolylineAndTable v vs) xs s)"
  by (induction xs arbitrary: s) (simp_all add: marker_forget)

lemma forget_idem [simp]: "forget (forget s) = forget s"
  by (simp add: forget_def)

lemma forget_randomCalls:
  "forget (s\<lparr> randomCalls := r \<rparr>) = (forget s)\<lparr> randomCalls := r \<rparr>"
  "forget (s\<lparr> nextAction := a \<rparr>) = (forget s)\<lparr> nextAction := a \<rparr>"
  by (simp_all add: forget_def)

lemma fold_keeps [simp]:
  "componentEList (fold (\<lambda>v. updateMarkerAndTable v vs) xs s) = componentEList s"
  by (induction xs arbitrary: s) (simp_all add: updateMarkerAndTable_def)

lemma ind_finalizeComponent:
  "mapResult forget (finalizeComponent (forget s)) = mapResult forget (finalizeComponent s)"
proof (cases "componentNum s < 20")
  case True
  then show ?thesis
    by (simp add: finalizeComponent_def Let_def fold_marker_forget fold_polyline_forget
          forget_randomCalls [symmetric])
next
  case False
  then show ?thesis
    by (simp add: finalizeComponent_def Let_def fold_marker_forget fold_polyline_forget
          forget_randomCalls [symmetric])
qed

lemma ind_unknown:
  "mapResult forget (Inl (TypeError, setStatus AV_PAUSED
      ((forget s)\<lparr> alerts := alerts (forget s) @
            [''HDX Internal error: bad AV action: '' @ nextAction (forget s)] \<rparr>))) =
   mapResult forget (Inl (TypeError, setStatus AV_PAUSED
      (s\<lparr> alerts := alerts s @ [''HDX Internal error: bad AV action: '' @ nextAction s] \<rparr>)))"
  by (simp add: setStatus_def forget_def)

lemmas ind_actions = ind_START ind_checkAllComponentsDone ind_checkComponentDone
  ind_checkEndAdded ind_checkLDVEmpty ind_LDVEmpty ind_getPlaceFromLDV ind_checkAdded
  ind_wasAdded ind_wasNotAdded ind_checkNeighborsLoopTop ind_checkNeighborsLoopIf
  ind_checkNeighborsLoopIfTrue ind_checkNeighborsLoopIfFalse ind_finalizeComponent
  ind_checkAnyUnadded ind_startNewComponent ind_doneToTrue ind_cleanup ind_unknown

lemma nextAction_forget [simp]: "nextAction (forget s) = nextAction s"
  by (simp add: forget_def)

lemma lookupAction_Some: "lookupAction l acts = Some a \<Longrightarrow> a \<in> set acts \<and> fst a = l"
  by (induction acts) (auto split: if_splits)

lemma table_forget:
  "a \<in> set (avActions g vf) \<Longrightarrow>
   mapResult forget (snd a (forget s)) = mapResult forget (snd a s)"
  unfolding avActions_def
  by (simp only: set_simps insert_iff empty_iff) (elim disjE; simp only: snd_conv ind_actions)

lemma oneAction_forget:
  "mapResult forget (oneAction (avActions g vf) (forget s)) =
   mapResult forget (oneAction (avActions g vf) s)"
proof (cases "lookupAction (nextAction s) (avActions g vf)")
  case None
  then show ?thesis using ind_unknown [of s] by (simp add: oneAction_def)
next
  case (Some a)
  then show ?thesis
    using table_forget [of a g vf s] lookupAction_Some [OF Some] by (simp add: oneAction_def)
qed

text \<open>
  Every action leaves the controller's fields alone, and an action that sets the next
  action to \<^verbatim>\<open>"DONE"\<close> has set the flag that ends the iteration.
\<close>

lemma fold_keeps_ctl [simp]:
  "status (fold (\<lambda>v. updateMarkerAndTable v vs) xs s) = status s"
  "delay (fold (\<lambda>v. updateMarkerAndTable v vs) xs s) = delay s"
  "traceActions (fold (\<lambda>v. updateMarkerAndTable v vs) xs s) = traceActions s"
  "timeouts (fold (\<lambda>v. updateMarkerAndTable v vs) xs s) = timeouts s"
  "status (fold (\<lambda>v. updatePolylineAndTable v vs) xs s) = status s"
  "delay (fold (\<lambda>v. updatePolylineAndTable v vs) xs s) = delay s"
  "traceActions (fold (\<lambda>v. updatePolylineAndTable v vs) xs s) = traceActions s"
  "timeouts (fold (\<lambda>v. updatePolylineAndTable v vs) xs s) = timeouts s"
  by (induction xs arbitrary: s)
     (simp_all add: updateMarkerAndTable_def updatePolylineAndTable_def)

lemmas ctl_simps = doneMarksIteration_def keepsController_def Let_def updateMarkerAndTable_def
  updatePolylineAndTable_def loopTop_def nextNeighborAction_def LDVEntry_def
  getAdjacentPoints_def

lemma ctl_START:
  "doneMarksIteration (START g s) \<and> keepsController s (START g s)"
  by (simp add: START_def ctl_simps split: option.splits prod.splits sum.splits)

lemma ctl_checkAllComponentsDone:
  "doneMarksIteration (checkAllComponentsDone s) \<and> keepsController s (checkAllComponentsDone s)"
  by (simp add: checkAllComponentsDone_def ctl_simps split: option.splits prod.splits sum.splits)

lemma ctl_checkComponentDone:
  "doneMarksIteration (checkComponentDone s) \<and> keepsController s (checkComponentDone s)"
  by (simp add: checkComponentDone_def ctl_simps split: option.splits prod.splits sum.splits)

lemma ctl_checkEndAdded:
  "doneMarksIteration (checkEndAdded s) \<and> keepsController s (checkEndAdded s)"
  by (simp add: checkEndAdded_def ctl_simps split: option.splits prod.splits sum.splits)

lemma ctl_checkLDVEmpty:
  "doneMarksIteration (checkLDVEmpty s) \<and> keepsController s (checkLDVEmpty s)"
  by (simp add: checkLDVEmpty_def ctl_simps split: option.splits prod.splits sum.splits)

lemma ctl_LDVEmpty:
  "doneMarksIteration (LDVEmpty s) \<and> keepsController s (LDVEmpty s)"
  by (simp add: LDVEmpty_def ctl_simps split: option.splits prod.splits sum.splits)

lemma ctl_getPlaceFromLDV:
  "doneMarksIteration (getPlaceFromLDV g s) \<and> keepsController s (getPlaceFromLDV g s)"
  by (simp add: getPlaceFromLDV_def ctl_simps split: option.splits prod.splits sum.splits)

lemma ctl_checkAdded:
  "doneMarksIteration (checkAdded s) \<and> keepsController s (checkAdded s)"
  by (simp add: checkAdded_def ctl_simps split: option.splits prod.splits sum.splits)

lemma ctl_wasAdded:
  "doneMarksIteration (wasAdded s) \<and> keepsController s (wasAdded s)"
  by (simp add: wasAdded_def ctl_simps split: option.splits prod.splits sum.splits)

lemma ctl_wasNotAdded:
  "doneMarksIteration (wasNotAdded g s) \<and> keepsController s (wasNotAdded g s)"
  by (simp add: wasNotAdded_def ctl_simps split: option.splits prod.splits sum.splits)

lemma ctl_checkNeighborsLoopTop:
  "doneMarksIteration (checkNeighborsLoopTop g s) \<and> keepsController s (checkNeighborsLoopTop g s)"
  by (simp add: checkNeighborsLoopTop_def ctl_simps split: option.splits prod.splits sum.splits)

lemma ctl_checkNeighborsLoopIf:
  "doneMarksIteration (checkNeighborsLoopIf s) \<and> keepsController s (checkNeighborsLoopIf s)"
  by (simp add: checkNeighborsLoopIf_def ctl_simps split: option.splits prod.splits sum.splits)

lemma ctl_checkNeighborsLoopIfTrue:
  "doneMarksIteration (checkNeighborsLoopIfTrue s) \<and> keepsController s (checkNeighborsLoopIfTrue s)"
  by (simp add: checkNeighborsLoopIfTrue_def ctl_simps split: option.splits prod.splits sum.splits)

lemma ctl_checkNeighborsLoopIfFalse:
  "doneMarksIteration (checkNeighborsLoopIfFalse g vf s) \<and> keepsController s (checkNeighborsLoopIfFalse g vf s)"
  by (simp add: checkNeighborsLoopIfFalse_def ctl_simps split: option.splits prod.splits sum.splits)

lemma ctl_finalizeComponent:
  "doneMarksIteration (finalizeComponent s) \<and> keepsController s (finalizeComponent s)"
  by (simp add: finalizeComponent_def ctl_simps split: option.splits prod.splits sum.splits)

lemma ctl_checkAnyUnadded:
  "doneMarksIteration (checkAnyUnadded g s) \<and> keepsController s (checkAnyUnadded g s)"
  by (simp add: checkAnyUnadded_def ctl_simps split: option.splits prod.splits sum.splits)

lemma ctl_startNewComponent:
  "doneMarksIteration (startNewComponent g s) \<and> keepsController s (startNewComponent g s)"
  by (simp add: startNewComponent_def ctl_simps split: option.splits prod.splits sum.splits)

lemma ctl_doneToTrue:
  "doneMarksIteration (doneToTrue s) \<and> keepsController s (doneToTrue s)"
  by (simp add: doneToTrue_def ctl_simps split: option.splits prod.splits sum.splits)

lemma ctl_cleanup:
  "doneMarksIteration (cleanup s) \<and> keepsController s (cleanup s)"
  by (simp add: cleanup_def ctl_simps split: option.splits prod.splits sum.splits)

lemmas ctl_actions = ctl_START ctl_checkAllComponentsDone ctl_checkComponentDone ctl_checkEndAdded ctl_checkLDVEmpty ctl_LDVEmpty ctl_getPlaceFromLDV ctl_checkAdded ctl_wasAdded ctl_wasNotAdded ctl_checkNeighborsLoopTop ctl_checkNeighborsLoopIf ctl_checkNeighborsLoopIfTrue ctl_checkNeighborsLoopIfFalse ctl_finalizeComponent ctl_checkAnyUnadded ctl_startNewComponent ctl_doneToTrue ctl_cleanup

lemma table_ctl:
  "a \<in> set (avActions g vf) \<Longrightarrow>
   doneMarksIteration (snd a s) \<and> keepsController s (snd a s)"
  unfolding avActions_def
  by (simp only: set_simps insert_iff empty_iff) (elim disjE; simp only: snd_conv ctl_actions)

lemma oneAction_ctl:
  "doneMarksIteration (oneAction (avActions g vf) s) \<and>
   keepsController s (oneAction (avActions g vf) s)"
proof (cases "lookupAction (nextAction s) (avActions g vf)")
  case None
  then show ?thesis
    by (simp add: oneAction_def doneMarksIteration_def keepsController_def setStatus_def)
next
  case (Some a)
  then show ?thesis
    using table_ctl [of a g vf s] lookupAction_Some [OF Some] by (simp add: oneAction_def)
qed

text \<open>
  The run-to-completion loop, for any table of actions that is independent of the
  controller: it returns exactly when some number of actions reaches \<^verbatim>\<open>"DONE"\<close> or
  throws, with the result of these actions.
\<close>

lemma forget_eq_nextAction: "forget s = forget s' \<Longrightarrow> nextAction s = nextAction s'"
  by (metis nextAction_forget)

lemma ioc_forget:
  assumes "independentOfController acts" and "forget s = forget s'"
  shows "mapResult forget (oneAction acts s) = mapResult forget (oneAction acts s')"
  using assms unfolding independentOfController_def by metis

lemma ioc_done:
  assumes "independentOfController acts" and "oneAction acts s = Inr t"
    and "nextAction t = ''DONE''"
  shows "iterationDone t"
proof -
  from assms(1) have "doneMarksIteration (oneAction acts s)"
    unfolding independentOfController_def by blast
  with assms(2,3) show ?thesis by (simp add: doneMarksIteration_def)
qed

lemma ioc_keeps:
  assumes "independentOfController acts" and "oneAction acts s = Inr t"
  shows "status t = status s" "delay t = delay s" "traceActions t = traceActions s"
    "timeouts t = timeouts s"
proof -
  from assms(1) have "keepsController s (oneAction acts s)"
    unfolding independentOfController_def by blast
  with assms(2) show "status t = status s" "delay t = delay s"
    "traceActions t = traceActions s" "timeouts t = timeouts s"
    by (simp_all add: keepsController_def)
qed

lemma ioc_keeps_thrown:
  assumes "independentOfController acts" and "oneAction acts s = Inl e"
  shows "timeouts (snd e) = timeouts s"
proof -
  from assms(1) have "keepsController s (oneAction acts s)"
    unfolding independentOfController_def by blast
  with assms(2) show ?thesis by (simp add: keepsController_def)
qed

lemma mapResult_Inl_iff:
  "mapResult f r = mapResult f (Inl e) \<longleftrightarrow> (\<exists>e'. r = Inl e' \<and> fst e' = fst e \<and> f (snd e') = f (snd e))"
  by (cases r) (auto simp: mapResult_def)

lemma mapResult_Inr_iff:
  "mapResult f r = mapResult f (Inr t) \<longleftrightarrow> (\<exists>t'. r = Inr t' \<and> f t' = f t)"
  by (cases r) (auto simp: mapResult_def)

lemma finished_forget:
  "mapResult forget r = mapResult forget r' \<Longrightarrow> finished r = finished r'"
  by (cases r; cases r') (auto simp: mapResult_def finished_def dest: forget_eq_nextAction)

lemma walkN_done: "nextAction s = ''DONE'' \<Longrightarrow> walkN n acts s = Inr s"
  by (cases n) simp_all

lemma walkN_add:
  "walkN (m + n) acts s = (case walkN m acts s of Inl e \<Rightarrow> Inl e | Inr t \<Rightarrow> walkN n acts t)"
proof (induction m arbitrary: s)
  case 0
  show ?case by simp
next
  case (Suc m)
  show ?case
  proof (cases "nextAction s = ''DONE''")
    case True
    then show ?thesis by (simp add: walkN_done)
  next
    case False
    then show ?thesis using Suc.IH by (simp split: sum.splits)
  qed
qed

lemma walkN_forget:
  assumes ioc: "independentOfController acts"
  shows "forget s = forget s' \<Longrightarrow>
         mapResult forget (walkN n acts s) = mapResult forget (walkN n acts s')"
proof (induction n arbitrary: s s')
  case 0
  then show ?case by simp
next
  case (Suc n)
  have na: "nextAction s = nextAction s'" by (rule forget_eq_nextAction [OF Suc.prems])
  show ?case
  proof (cases "nextAction s = ''DONE''")
    case True
    with na Suc.prems show ?thesis by simp
  next
    case False
    have eq: "mapResult forget (oneAction acts s) = mapResult forget (oneAction acts s')"
      by (rule ioc_forget [OF ioc Suc.prems])
    show ?thesis
    proof (cases "oneAction acts s")
      case (Inl e)
      with eq obtain e' where "oneAction acts s' = Inl e'" "fst e' = fst e"
        "forget (snd e') = forget (snd e)"
        using mapResult_Inl_iff [of forget "oneAction acts s'" e] by auto
      with Inl False na show ?thesis by (simp add: mapResult_def)
    next
      case (Inr t)
      with eq obtain t' where t': "oneAction acts s' = Inr t'" "forget t' = forget t"
        using mapResult_Inr_iff [of forget "oneAction acts s'" t] by auto
      from Suc.IH [of t t'] t' have "mapResult forget (walkN n acts t) =
          mapResult forget (walkN n acts t')" by simp
      with Inr t' False na show ?thesis by simp
    qed
  qed
qed

lemma afterInner_unfold:
  "afterInner acts u =
     (if iterationDone u then runToCompletion acts u
      else case oneAction acts u of Inl e \<Rightarrow> Some (Inl e) | Inr t \<Rightarrow> afterInner acts t)"
  unfolding afterInner_def
  by (subst oneIterationLoop.simps) (simp split: sum.splits)

lemma runToCompletion_unfold:
  "runToCompletion acts u =
     (if nextAction u = ''DONE'' then Some (Inr u)
      else afterInner acts (u\<lparr> iterationDone := False \<rparr>))"
  unfolding afterInner_def
  by (subst runToCompletion.simps) (simp add: oneIteration_def split: option.splits sum.splits)

lemma forget_iterationDone: "forget (u\<lparr> iterationDone := b \<rparr>) = forget u"
  by (simp add: forget_def)

lemma afterInner_reset:
  "nextAction u = ''DONE'' \<longrightarrow> iterationDone u \<Longrightarrow> nextAction u \<noteq> ''DONE'' \<Longrightarrow>
   afterInner acts u = afterInner acts (u\<lparr> iterationDone := False \<rparr>)"
proof (cases "iterationDone u")
  case True
  assume "nextAction u \<noteq> ''DONE''"
  with True show ?thesis
    by (subst afterInner_unfold) (simp add: runToCompletion_unfold)
next
  case False
  then have "u\<lparr> iterationDone := False \<rparr> = u" by simp
  then show ?thesis by simp
qed

lemma completion_forward_inner:
  assumes ioc: "independentOfController acts"
  shows "finished (walkN n acts u) \<Longrightarrow> (nextAction u = ''DONE'' \<longrightarrow> iterationDone u) \<Longrightarrow>
         \<exists>r. afterInner acts u = Some r \<and>
             mapResult forget r = mapResult forget (walkN n acts u)"
proof (induction n arbitrary: u)
  case 0
  then have d: "nextAction u = ''DONE''" "iterationDone u" by (simp_all add: finished_def)
  then show ?case by (subst afterInner_unfold) (simp add: runToCompletion_unfold)
next
  case (Suc n)
  show ?case
  proof (cases "nextAction u = ''DONE''")
    case True
    with Suc.prems have "iterationDone u" by simp
    with True show ?thesis by (subst afterInner_unfold) (simp add: runToCompletion_unfold)
  next
    case False
    define u' where "u' = u\<lparr> iterationDone := False \<rparr>"
    have fu: "forget u' = forget u" by (simp add: u'_def forget_iterationDone)
    have nu: "nextAction u' \<noteq> ''DONE''" "\<not> iterationDone u'" using False by (simp_all add: u'_def)
    have ai: "afterInner acts u = afterInner acts u'"
      unfolding u'_def using Suc.prems(2) False by (rule afterInner_reset)
    have w: "mapResult forget (walkN (Suc n) acts u') = mapResult forget (walkN (Suc n) acts u)"
      by (rule walkN_forget [OF ioc fu])
    then have fin: "finished (walkN (Suc n) acts u')"
      using Suc.prems(1) finished_forget by blast
    show ?thesis
    proof (cases "oneAction acts u'")
      case (Inl e)
      then have "afterInner acts u' = Some (Inl e)" using nu
        by (subst afterInner_unfold) simp
      moreover have "walkN (Suc n) acts u' = Inl e" using Inl nu by simp
      ultimately show ?thesis using ai w by simp
    next
      case (Inr t)
      then have a: "afterInner acts u' = afterInner acts t" using nu
        by (subst afterInner_unfold) simp
      have wt: "walkN (Suc n) acts u' = walkN n acts t" using Inr nu by simp
      have "nextAction t = ''DONE'' \<longrightarrow> iterationDone t"
        using ioc_done [OF ioc Inr] by blast
      with Suc.IH [of t] fin wt obtain r where
        "afterInner acts t = Some r" "mapResult forget r = mapResult forget (walkN n acts t)"
        by auto
      with a ai w wt show ?thesis by simp
    qed
  qed
qed

lemma completion_forward:
  assumes ioc: "independentOfController acts" and fin: "finished (walkN n acts u)"
  shows "\<exists>r. runToCompletion acts u = Some r \<and>
             mapResult forget r = mapResult forget (walkN n acts u)"
proof (cases "nextAction u = ''DONE''")
  case True
  then show ?thesis by (simp add: runToCompletion_unfold walkN_done)
next
  case False
  define u' where "u' = u\<lparr> iterationDone := False \<rparr>"
  have fu: "forget u' = forget u" by (simp add: u'_def forget_iterationDone)
  have w: "mapResult forget (walkN n acts u') = mapResult forget (walkN n acts u)"
    by (rule walkN_forget [OF ioc fu])
  then have "finished (walkN n acts u')" using fin finished_forget by blast
  moreover have "nextAction u' = ''DONE'' \<longrightarrow> iterationDone u'" using False by (simp add: u'_def)
  ultimately obtain r where "afterInner acts u' = Some r"
    "mapResult forget r = mapResult forget (walkN n acts u')"
    using completion_forward_inner [OF ioc] by blast
  with w False show ?thesis by (simp add: runToCompletion_unfold u'_def)
qed

lemma inner_backward:
  assumes ioc: "independentOfController acts"
    and run: "oneIterationLoop acts u = Some r"
  shows "(nextAction u = ''DONE'' \<longrightarrow> iterationDone u) \<longrightarrow> (\<exists>m. walkN m acts u = r)"
proof -
  have "acts = acts \<longrightarrow> (nextAction u = ''DONE'' \<longrightarrow> iterationDone u) \<longrightarrow>
        (\<exists>m. walkN m acts u = r)"
  proof (rule oneIterationLoop.raw_induct [where P = "\<lambda>a u r.
      a = acts \<longrightarrow> (nextAction u = ''DONE'' \<longrightarrow> iterationDone u) \<longrightarrow> (\<exists>m. walkN m a u = r)",
      OF _ run])
    fix f a s y
    assume IH: "\<And>s b y. f s b = Some y \<Longrightarrow>
        s = acts \<longrightarrow> (nextAction b = ''DONE'' \<longrightarrow> iterationDone b) \<longrightarrow> (\<exists>m. walkN m s b = y)"
      and body: "(if iterationDone s then Some (Inr s)
         else case oneAction a s of Inl e \<Rightarrow> Some (Inl e) | Inr s' \<Rightarrow> f a s') = Some y"
    show "a = acts \<longrightarrow> (nextAction s = ''DONE'' \<longrightarrow> iterationDone s) \<longrightarrow> (\<exists>m. walkN m a s = y)"
    proof (intro impI)
      assume a: "a = acts" and inv: "nextAction s = ''DONE'' \<longrightarrow> iterationDone s"
      show "\<exists>m. walkN m a s = y"
      proof (cases "iterationDone s")
        case True
        with body have "y = Inr s" by simp
        then have "walkN 0 a s = y" by simp
        then show ?thesis by blast
      next
        case False
        with inv have nd: "nextAction s \<noteq> ''DONE''" by blast
        show ?thesis
        proof (cases "oneAction a s")
          case (Inl e)
          with body False have "y = Inl e" by simp
          with Inl nd have "walkN (Suc 0) a s = y" by simp
          then show ?thesis by blast
        next
          case (Inr t)
          with body False have ft: "f a t = Some y" by simp
          have "nextAction t = ''DONE'' \<longrightarrow> iterationDone t"
            using ioc_done [OF ioc] Inr a by blast
          with IH [OF ft] a obtain m where "walkN m a t = y" by blast
          with Inr nd have "walkN (Suc m) a s = y" by simp
          then show ?thesis by blast
        qed
      qed
    qed
  qed
  then show ?thesis by simp
qed

lemma completion_backward:
  assumes ioc: "independentOfController acts"
    and run: "runToCompletion acts u = Some r"
  shows "\<exists>n. finished (walkN n acts u) \<and>
             mapResult forget r = mapResult forget (walkN n acts u)"
proof -
  have "acts = acts \<longrightarrow> (\<exists>n. finished (walkN n acts u) \<and>
             mapResult forget r = mapResult forget (walkN n acts u))"
  proof (rule runToCompletion.raw_induct [where P = "\<lambda>a u r.
      a = acts \<longrightarrow> (\<exists>n. finished (walkN n a u) \<and>
             mapResult forget r = mapResult forget (walkN n a u))", OF _ run])
    fix f a s y
    assume IH: "\<And>s b y. f s b = Some y \<Longrightarrow>
        s = acts \<longrightarrow> (\<exists>n. finished (walkN n s b) \<and>
             mapResult forget y = mapResult forget (walkN n s b))"
      and body: "(if nextAction s = ''DONE'' then Some (Inr s)
         else case oneIteration a s of None \<Rightarrow> None | Some (Inl e) \<Rightarrow> Some (Inl e)
              | Some (Inr s') \<Rightarrow> f a s') = Some y"
    show "a = acts \<longrightarrow> (\<exists>n. finished (walkN n a s) \<and>
             mapResult forget y = mapResult forget (walkN n a s))"
    proof (intro impI)
      assume a: "a = acts"
      show "\<exists>n. finished (walkN n a s) \<and>
             mapResult forget y = mapResult forget (walkN n a s)"
      proof (cases "nextAction s = ''DONE''")
        case True
        with body have "y = Inr s" by simp
        with True have "finished (walkN 0 a s) \<and>
            mapResult forget y = mapResult forget (walkN 0 a s)" by (simp add: finished_def)
        then show ?thesis by blast
      next
        case False
        define s' where "s' = s\<lparr> iterationDone := False \<rparr>"
        have fu: "forget s' = forget s" by (simp add: s'_def forget_iterationDone)
        have inv: "nextAction s' = ''DONE'' \<longrightarrow> iterationDone s'" using False by (simp add: s'_def)
        have w: "\<And>n. mapResult forget (walkN n a s') = mapResult forget (walkN n a s)"
          unfolding a by (rule walkN_forget [OF ioc fu])
        from body False obtain x where x: "oneIterationLoop a s' = Some x"
          by (cases "oneIteration a s") (simp_all add: oneIteration_def s'_def)
        with inner_backward [OF ioc, of s' x] inv a obtain m where m: "walkN m a s' = x" by blast
        show ?thesis
        proof (cases x)
          case (Inl e)
          with body False x have "y = Inl e" by (simp add: oneIteration_def s'_def)
          with m Inl have "mapResult forget y = mapResult forget (walkN m a s')" by simp
          with w [of m] have "mapResult forget y = mapResult forget (walkN m a s)" by simp
          moreover from this have "finished (walkN m a s)"
            using \<open>y = Inl e\<close> finished_forget [of y "walkN m a s"] by (simp add: finished_def)
          ultimately show ?thesis by blast
        next
          case (Inr t)
          with body False x have "f a t = Some y" by (simp add: oneIteration_def s'_def)
          from IH [OF this] a obtain n where n: "finished (walkN n a t)"
            "mapResult forget y = mapResult forget (walkN n a t)" by blast
          have "walkN (m + n) a s' = walkN n a t" using m Inr by (simp add: walkN_add)
          with n w [of "m + n"] have "mapResult forget y = mapResult forget (walkN (m + n) a s)"
            by simp
          moreover from this n(1) n(2) have "finished (walkN (m + n) a s)"
            using finished_forget by blast
          ultimately show ?thesis by blast
        qed
      qed
    qed
  qed
  then show ?thesis by simp
qed

text \<open>The same for the chain of callbacks that performs one action each.\<close>

lemma timeouts_same: "timeouts t = n \<Longrightarrow> t\<lparr> timeouts := n \<rparr> = t"
  by auto

lemma stepping_keeps:
  assumes ioc: "independentOfController acts" and st: "stepping s"
    and one: "oneAction acts s = Inr t"
  shows "stepping t"
  using ioc_keeps [OF ioc one] st by (simp add: stepping_def)

lemma nextStep_stepping:
  assumes st: "stepping s"
  shows "nextStep acts s =
     (case oneAction acts s of
        Inl e \<Rightarrow> Some (Inl e)
      | Inr t \<Rightarrow> Some (Inr (if nextAction t \<noteq> ''DONE''
                             then t\<lparr> timeouts := timeouts t + 1 \<rparr>
                             else setStatus AV_COMPLETE t)))"
  using st by (simp add: nextStep_def stepping_def paused_def split: sum.splits)

lemma fireTimeouts_one:
  assumes "timeouts t = 0"
  shows "fireTimeouts acts (t\<lparr> timeouts := timeouts t + 1 \<rparr>) = runStepping acts t"
  using assms
  by (subst fireTimeouts.simps) (simp add: runStepping_def timeouts_same)

lemma fireTimeouts_zero: "timeouts t = 0 \<Longrightarrow> fireTimeouts acts t = Some t"
  by (subst fireTimeouts.simps) simp

lemma timeouts_setStatus: "timeouts (setStatus st t) = timeouts t"
  by (simp add: setStatus_def)

lemma runStepping_unfold:
  assumes ioc: "independentOfController acts" and st: "stepping s"
  shows "runStepping acts s =
     (case oneAction acts s of
        Inl e \<Rightarrow> Some (snd e)
      | Inr t \<Rightarrow> if nextAction t = ''DONE'' then Some (setStatus AV_COMPLETE t)
                 else runStepping acts t)"
proof (cases "oneAction acts s")
  case (Inl e)
  from st have "timeouts s = 0" by (simp add: stepping_def)
  with ioc_keeps_thrown [OF ioc Inl] have "timeouts (snd e) = 0" by simp
  then show ?thesis using Inl
    by (simp add: runStepping_def nextStep_stepping [OF st] fireTimeouts_zero)
next
  case (Inr t)
  have "stepping t" by (rule stepping_keeps [OF ioc st Inr])
  then have t0: "timeouts t = 0" by (simp add: stepping_def)
  have r: "runStepping acts s =
      fireTimeouts acts (if nextAction t \<noteq> ''DONE''
                         then t\<lparr> timeouts := timeouts t + 1 \<rparr>
                         else setStatus AV_COMPLETE t)"
    using Inr by (simp add: runStepping_def nextStep_stepping [OF st])
  show ?thesis
  proof (cases "nextAction t = ''DONE''")
    case True
    with r t0 Inr show ?thesis by (simp add: fireTimeouts_zero timeouts_setStatus)
  next
    case False
    with r Inr fireTimeouts_one [OF t0, of acts] show ?thesis by simp
  qed
qed

lemma stepping_forward:
  assumes ioc: "independentOfController acts"
  shows "stepping s \<Longrightarrow> nextAction s \<noteq> ''DONE'' \<Longrightarrow> finished (walkN n acts s) \<Longrightarrow>
         runStepping acts s = Some (finish (walkN n acts s))"
proof (induction n arbitrary: s)
  case 0
  then show ?case by (simp add: finished_def)
next
  case (Suc n)
  show ?case
  proof (cases "oneAction acts s")
    case (Inl e)
    with Suc.prems show ?thesis
      by (simp add: runStepping_unfold [OF ioc Suc.prems(1)] finish_def)
  next
    case (Inr t)
    have st: "stepping t" by (rule stepping_keeps [OF ioc Suc.prems(1) Inr])
    show ?thesis
    proof (cases "nextAction t = ''DONE''")
      case True
      with Inr Suc.prems show ?thesis
        by (simp add: runStepping_unfold [OF ioc Suc.prems(1)] finish_def walkN_done)
    next
      case False
      from Inr Suc.prems have "finished (walkN n acts t)" by simp
      from Suc.IH [OF st False this] Inr Suc.prems False show ?thesis
        by (simp add: runStepping_unfold [OF ioc Suc.prems(1)])
    qed
  qed
qed

lemma fireTimeouts_backward:
  assumes ioc: "independentOfController acts"
    and run: "fireTimeouts acts v = Some y"
  shows "timeouts v = 1 \<longrightarrow> stepping (v\<lparr> timeouts := 0 \<rparr>) \<longrightarrow> nextAction v \<noteq> ''DONE'' \<longrightarrow>
         (\<exists>n. finished (walkN n acts (v\<lparr> timeouts := 0 \<rparr>)))"
proof -
  have "acts = acts \<longrightarrow> timeouts v = 1 \<longrightarrow> stepping (v\<lparr> timeouts := 0 \<rparr>) \<longrightarrow>
        nextAction v \<noteq> ''DONE'' \<longrightarrow> (\<exists>n. finished (walkN n acts (v\<lparr> timeouts := 0 \<rparr>)))"
  proof (rule fireTimeouts.raw_induct [where P = "\<lambda>a v y.
      a = acts \<longrightarrow> timeouts v = 1 \<longrightarrow> stepping (v\<lparr> timeouts := 0 \<rparr>) \<longrightarrow>
        nextAction v \<noteq> ''DONE'' \<longrightarrow> (\<exists>n. finished (walkN n a (v\<lparr> timeouts := 0 \<rparr>)))",
      OF _ run])
    fix f a s y
    assume IH: "\<And>s b y. f s b = Some y \<Longrightarrow>
        s = acts \<longrightarrow> timeouts b = 1 \<longrightarrow> stepping (b\<lparr> timeouts := 0 \<rparr>) \<longrightarrow>
        nextAction b \<noteq> ''DONE'' \<longrightarrow> (\<exists>n. finished (walkN n s (b\<lparr> timeouts := 0 \<rparr>)))"
      and body: "(if timeouts s = 0 then Some s
         else case nextStep a (s\<lparr> timeouts := timeouts s - 1 \<rparr>) of None \<Rightarrow> None
              | Some (Inl e) \<Rightarrow> f a (snd e) | Some (Inr s') \<Rightarrow> f a s') = Some y"
    show "a = acts \<longrightarrow> timeouts s = 1 \<longrightarrow> stepping (s\<lparr> timeouts := 0 \<rparr>) \<longrightarrow>
        nextAction s \<noteq> ''DONE'' \<longrightarrow> (\<exists>n. finished (walkN n a (s\<lparr> timeouts := 0 \<rparr>)))"
    proof (intro impI)
      assume a: "a = acts" and t1: "timeouts s = 1" and st: "stepping (s\<lparr> timeouts := 0 \<rparr>)"
        and nd: "nextAction s \<noteq> ''DONE''"
      define s0 where "s0 = s\<lparr> timeouts := 0 \<rparr>"
      have nd0: "nextAction s0 \<noteq> ''DONE''" using nd by (simp add: s0_def)
      have st0: "stepping s0" using st by (simp add: s0_def)
      show "\<exists>n. finished (walkN n a (s\<lparr> timeouts := 0 \<rparr>))"
      proof (cases "oneAction a s0")
        case (Inl e)
        with nd0 have "finished (walkN (Suc 0) a s0)" by (simp add: finished_def)
        then show ?thesis unfolding s0_def by blast
      next
        case (Inr t)
        have stt: "stepping t" using stepping_keeps [OF ioc st0] Inr a by simp
        show ?thesis
        proof (cases "nextAction t = ''DONE''")
          case True
          with Inr nd0 have "finished (walkN (Suc 0) a s0)" by (simp add: finished_def)
          then show ?thesis unfolding s0_def by blast
        next
          case False
          define t1 where "t1 = t\<lparr> timeouts := timeouts t + 1 \<rparr>"
          from stt have t0: "timeouts t = 0" by (simp add: stepping_def)
          from body t1 Inr False have "f a t1 = Some y"
            by (simp add: nextStep_stepping [OF st0] s0_def [symmetric] t1_def)
          from IH [OF this] a have "timeouts t1 = 1 \<longrightarrow> stepping (t1\<lparr> timeouts := 0 \<rparr>) \<longrightarrow>
              nextAction t1 \<noteq> ''DONE'' \<longrightarrow> (\<exists>n. finished (walkN n a (t1\<lparr> timeouts := 0 \<rparr>)))"
            by blast
          moreover have "t1\<lparr> timeouts := 0 \<rparr> = t" using t0 by (simp add: t1_def timeouts_same)
          moreover have "timeouts t1 = 1" "nextAction t1 \<noteq> ''DONE''"
            using t0 False by (simp_all add: t1_def)
          ultimately obtain n where "finished (walkN n a t)" using stt by auto
          with Inr nd0 have "finished (walkN (Suc n) a s0)" by simp
          then show ?thesis unfolding s0_def by blast
        qed
      qed
    qed
  qed
  then show ?thesis by simp
qed

lemma stepping_backward:
  assumes ioc: "independentOfController acts" and st: "stepping s"
    and nd: "nextAction s \<noteq> ''DONE''" and run: "runStepping acts s = Some y"
  shows "\<exists>n. finished (walkN n acts s)"
proof -
  define s1 where "s1 = s\<lparr> timeouts := timeouts s + 1 \<rparr>"
  from st have t0: "timeouts s = 0" by (simp add: stepping_def)
  have "fireTimeouts acts s1 = Some y"
    using run fireTimeouts_one [OF t0, of acts] by (simp add: s1_def)
  from fireTimeouts_backward [OF ioc this]
  have "timeouts s1 = 1 \<longrightarrow> stepping (s1\<lparr> timeouts := 0 \<rparr>) \<longrightarrow> nextAction s1 \<noteq> ''DONE'' \<longrightarrow>
         (\<exists>n. finished (walkN n acts (s1\<lparr> timeouts := 0 \<rparr>)))" .
  moreover have "s1\<lparr> timeouts := 0 \<rparr> = s" using t0 by (simp add: s1_def timeouts_same)
  moreover have "timeouts s1 = 1" "nextAction s1 \<noteq> ''DONE''" using t0 nd by (simp_all add: s1_def)
  ultimately show ?thesis using st by auto
qed

lemma forget_finish: "forget (finish r) = forget (resultState r)"
  by (cases r) (simp_all add: finish_def resultState_def setStatus_def forget_def)

lemma forget_resultState:
  "mapResult forget r = mapResult forget r' \<Longrightarrow> forget (resultState r) = forget (resultState r')"
  by (cases r; cases r') (simp_all add: mapResult_def resultState_def)

lemma completion_stepping_generic:
  assumes ioc: "independentOfController acts"
    and fu: "forget u = forget s" and st: "stepping s" and nd: "nextAction s \<noteq> ''DONE''"
  shows "map_option (\<lambda>r. forget (resultState r)) (runToCompletion acts u) =
         map_option forget (runStepping acts s)"
proof (cases "\<exists>n. finished (walkN n acts s)")
  case True
  then obtain n where n: "finished (walkN n acts s)" by blast
  have w: "mapResult forget (walkN n acts u) = mapResult forget (walkN n acts s)"
    by (rule walkN_forget [OF ioc fu])
  then have "finished (walkN n acts u)" using n finished_forget by blast
  from completion_forward [OF ioc this] obtain r where
    r: "runToCompletion acts u = Some r"
       "mapResult forget r = mapResult forget (walkN n acts u)" by blast
  with w have "forget (resultState r) = forget (resultState (walkN n acts s))"
    using forget_resultState by metis
  with r(1) stepping_forward [OF ioc st nd n] show ?thesis by (simp add: forget_finish)
next
  case False
  have "runStepping acts s = None"
  proof (cases "runStepping acts s")
    case (Some y)
    from stepping_backward [OF ioc st nd Some] False show ?thesis by blast
  qed simp
  moreover have "runToCompletion acts u = None"
  proof (cases "runToCompletion acts u")
    case (Some r)
    from completion_backward [OF ioc Some] obtain n where n: "finished (walkN n acts u)" by blast
    have "mapResult forget (walkN n acts u) = mapResult forget (walkN n acts s)"
      by (rule walkN_forget [OF ioc fu])
    with n have "finished (walkN n acts s)" using finished_forget by blast
    with False show ?thesis by blast
  qed simp
  ultimately show ?thesis by simp
qed

lemma avActions_independent: "independentOfController (avActions g vf)"
  unfolding independentOfController_def using oneAction_forget oneAction_ctl by blast

lemma actionByActionRun_runStepping:
  assumes "status s = AV_SELECTED"
  shows "actionByActionRun g av selected d s =
         runStepping (avActions g (valForLDVEntry av))
           ((prepToStart av selected (s\<lparr> status := AV_RUNNING, delay := d, traceActions := True \<rparr>))
              \<lparr> nextAction := ''START'' \<rparr>)"
proof -
  have st: "status (s\<lparr> delay := d, traceActions := True \<rparr>) = AV_SELECTED" using assms by simp
  have e: "setStatus AV_RUNNING (s\<lparr> delay := d, traceActions := True \<rparr>) =
           s\<lparr> status := AV_RUNNING, delay := d, traceActions := True \<rparr>"
    using assms by (cases s) (simp add: setStatus_def)
  show ?thesis
    unfolding actionByActionRun_def startPausePressed_def runStepping_def if_P [OF st] e
    by (simp add: resultState_def split: option.splits sum.splits)
qed

lemma completionRun_runToCompletion:
  assumes "status s = AV_SELECTED"
  shows "completionRun g av selected s =
         map_option resultState (runToCompletion (avActions g (valForLDVEntry av))
           ((prepToStart av selected (s\<lparr> status := AV_RUNNING, delay := 0 \<rparr>))
              \<lparr> nextAction := ''START'' \<rparr>))"
proof -
  have st: "status (s\<lparr> delay := 0 \<rparr>) = AV_SELECTED" using assms by simp
  have e: "setStatus AV_RUNNING (s\<lparr> delay := 0 \<rparr>) = s\<lparr> status := AV_RUNNING, delay := 0 \<rparr>"
    using assms by (cases s) (simp add: setStatus_def)
  show ?thesis
    unfolding completionRun_def startPausePressed_def if_P [OF st] e
    by (simp add: nextStep_def paused_def prepToStart_def)
qed

text \<open>
  C3. For a selected algorithm with no callback pending, and a delay other than 0
  and -1: the run to completion (delay 0) and the run that performs one action per
  callback until \<^verbatim>\<open>"DONE"\<close>, on the same graph and with the same source of random
  numbers, either both never end or both end, in states that differ only in the
  controller's fields. In particular the tree edges (the spanning tree or the path),
  the components' vertex lists and the outcome are the same.
\<close>

theorem completion_same_as_action_by_action:
  assumes "status s = AV_SELECTED" and "timeouts s = 0" and "d \<noteq> 0" and "d \<noteq> - 1"
  shows "map_option forget (completionRun g av selected s) =
         map_option forget (actionByActionRun g av selected d s)"
proof -
  define u where "u = (prepToStart av selected (s\<lparr> status := AV_RUNNING, delay := 0 \<rparr>))
              \<lparr> nextAction := ''START'' \<rparr>"
  define p where "p = (prepToStart av selected
      (s\<lparr> status := AV_RUNNING, delay := d, traceActions := True \<rparr>))\<lparr> nextAction := ''START'' \<rparr>"
  have fu: "forget u = forget p" by (simp add: u_def p_def forget_def prepToStart_def)
  have st: "stepping p" using assms by (simp add: p_def stepping_def prepToStart_def)
  have nd: "nextAction p \<noteq> ''DONE''" by (simp add: p_def)
  have "map_option (\<lambda>r. forget (resultState r)) (runToCompletion (avActions g (valForLDVEntry av)) u) =
        map_option forget (runStepping (avActions g (valForLDVEntry av)) p)"
    by (rule completion_stepping_generic [OF avActions_independent fu st nd])
  then show ?thesis
    unfolding actionByActionRun_runStepping [OF assms(1)] completionRun_runToCompletion [OF assms(1)]
      u_def p_def
    by (simp add: option.map_comp comp_def)
qed

text \<open>
  The theorem on the breadth-first traversal of the graph with the edges 0-1 and
  2-3, from vertex 0 to vertex 1: both runs end, with the tree 0, 1.
\<close>

theorem completion_same_as_action_by_action_witness:
  "status selectedState = AV_SELECTED \<and> timeouts selectedState = 0 \<and>
   map_option forget (completionRun twoPairs (hdxGraphTraversalsAV ''BFS'') StopAtEnd selectedState) =
   map_option forget
     (actionByActionRun twoPairs (hdxGraphTraversalsAV ''BFS'') StopAtEnd 50 selectedState) \<and>
   map_option (\<lambda>t. (map vIndex (treeEdges t), componentVList t, stoppedBecause t))
     (actionByActionRun twoPairs (hdxGraphTraversalsAV ''BFS'') StopAtEnd 50 selectedState) =
   Some ([0, 1], [0, 1], FoundPath)"
proof -
  have r: "map_option (\<lambda>t. (map vIndex (treeEdges t), componentVList t, stoppedBecause t))
     (actionByActionRun twoPairs (hdxGraphTraversalsAV ''BFS'') StopAtEnd 50 selectedState) =
   Some ([0, 1], [0, 1], FoundPath)"
    by code_simp
  have s: "status selectedState = AV_SELECTED" "timeouts selectedState = 0"
    by (simp_all add: selectedState_def hdxTraversalsSpanningAVCommon_def)
  from completion_same_as_action_by_action
    [of selectedState 50 twoPairs "hdxGraphTraversalsAV ''BFS''" StopAtEnd] s r
  show ?thesis by simp
qed


section \<open>A search for an end vertex that cannot be reached\<close>

text \<open>The list gives up an entry whenever it has one, and \<^verbatim>\<open>add\<close> adds one.\<close>

lemma weight_simps:
  "weight g ''cleanup'' vis = 1"
  "weight g ''LDVEmpty'' vis = 2"
  "weight g ''getPlaceFromLDV'' vis = 1"
  "weight g ''checkLDVEmpty'' vis = 3"
  "weight g ''checkEndAdded'' vis = 4"
  "weight g ''wasAdded'' vis = 5"
  "weight g ''wasNotAdded'' vis = 5"
  "weight g ''checkAdded'' vis = 6"
  "weight g ''checkNeighborsLoopIf'' vis = 5"
  "weight g ''checkNeighborsLoopIfTrue'' vis = 6"
  "weight g ''checkNeighborsLoopIfFalse'' vis = 12"
  "weight g ''checkNeighborsLoopTop'' (Some item) = 8 * length (waypoints g ! vIndex item) + 6"
  "weight g ''DONE'' vis = 0"
  by (simp_all add: weight_def)

lemma phaseOf_simps:
  "phaseOf g sp ''checkEndAdded'' s \<longleftrightarrow> neighborsToLoop s = []"
  "phaseOf g sp ''checkLDVEmpty'' s \<longleftrightarrow> neighborsToLoop s = []"
  "phaseOf g sp ''LDVEmpty'' s \<longleftrightarrow> neighborsToLoop s = [] \<and> isEmpty (ldv s)"
  "phaseOf g sp ''getPlaceFromLDV'' s \<longleftrightarrow> neighborsToLoop s = [] \<and> \<not> isEmpty (ldv s)"
  "phaseOf g sp ''checkAdded'' s \<longleftrightarrow> neighborsToLoop s = [] \<and> visitingOK g sp s"
  "phaseOf g sp ''wasAdded'' s \<longleftrightarrow> neighborsToLoop s = [] \<and> visitingOK g sp s"
  "phaseOf g sp ''checkNeighborsLoopTop'' s \<longleftrightarrow> neighborsToLoop s = [] \<and> visitingOK g sp s"
  "phaseOf g sp ''wasNotAdded'' s \<longleftrightarrow>
     neighborsToLoop s = [] \<and> visitingOK g sp s \<and>
     (case visiting s of None \<Rightarrow> False | Some item \<Rightarrow> \<not> arrayGet (addedV s) (vIndex item))"
  "phaseOf g sp ''checkNeighborsLoopIf'' s \<longleftrightarrow> neighborsToLoop s \<noteq> [] \<and> visitingOK g sp s"
  "phaseOf g sp ''checkNeighborsLoopIfTrue'' s \<longleftrightarrow> visitingOK g sp s \<and> nextNeighborOK g sp s"
  "phaseOf g sp ''checkNeighborsLoopIfFalse'' s \<longleftrightarrow> visitingOK g sp s \<and> nextNeighborOK g sp s"
  "phaseOf g sp ''cleanup'' s \<longleftrightarrow> stoppedBecause s = SearchFailed \<and> isEmpty (ldv s)"
  "phaseOf g sp ''DONE'' s \<longleftrightarrow> stoppedBecause s = SearchFailed \<and> isEmpty (ldv s)"
  by (simp_all add: phaseOf_def)

lemma step_checkEndAdded:
  assumes inv: "searchInv g sp ep s" and ph: "phaseInv g sp s"
    and na: "nextAction s = ''checkEndAdded''" and np: "\<not> pathExists g sp ep"
  shows "stepOK g sp ep s (checkEndAdded s)"
proof -
  from inv np have "\<not> arrayGet (addedV s) ep" by (auto simp: searchInv_def)
  moreover from inv have "endingVertex s = Some ep" by (simp add: searchInv_def)
  ultimately have r: "checkEndAdded s = Inr (s\<lparr> nextAction := ''checkLDVEmpty'', iterationDone := True \<rparr>)"
    by (simp add: checkEndAdded_def)
  show ?thesis unfolding r stepOK_def using inv ph na
    by (simp add: searchInv_def phaseInv_def phaseOf_simps potential_def weight_simps)
qed

lemma step_checkLDVEmpty:
  assumes inv: "searchInv g sp ep s" and ph: "phaseInv g sp s"
    and na: "nextAction s = ''checkLDVEmpty''"
  shows "stepOK g sp ep s (checkLDVEmpty s)"
  unfolding stepOK_def checkLDVEmpty_def using inv ph na
  by (simp add: searchInv_def phaseInv_def phaseOf_simps potential_def weight_simps)

lemma step_LDVEmpty:
  assumes inv: "searchInv g sp ep s" and ph: "phaseInv g sp s"
    and na: "nextAction s = ''LDVEmpty''"
  shows "stepOK g sp ep s (LDVEmpty s)"
  unfolding stepOK_def LDVEmpty_def using inv ph na
  by (simp add: searchInv_def phaseInv_def phaseOf_simps potential_def weight_simps)

lemma step_cleanup:
  assumes inv: "searchInv g sp ep s" and ph: "phaseInv g sp s"
    and na: "nextAction s = ''cleanup''"
  shows "stepOK g sp ep s (cleanup s)"
  unfolding stepOK_def cleanup_def using inv ph na
  by (simp add: searchInv_def phaseInv_def phaseOf_simps potential_def weight_simps)

lemma step_checkAdded:
  assumes inv: "searchInv g sp ep s" and ph: "phaseInv g sp s"
    and na: "nextAction s = ''checkAdded''"
  shows "stepOK g sp ep s (checkAdded s)"
  unfolding stepOK_def checkAdded_def using inv ph na
  by (auto simp add: searchInv_def phaseInv_def phaseOf_simps potential_def weight_simps
      visitingOK_def split: option.splits)

lemma randomIndex_less: "fst r < snd r \<Longrightarrow> 0 < n \<Longrightarrow> randomIndex r n < n"
proof -
  assume a: "fst r < snd r" and n: "0 < n"
  then have "fst r * n < n * snd r" by (simp add: mult.commute)
  then show ?thesis unfolding randomIndex_def using a
    by (simp add: less_mult_imp_div_less)
qed

lemma remove_nonempty:
  assumes t: "type l \<noteq> UNKNOWN" and ne: "items l \<noteq> []" and r: "fst r < snd r"
  shows "\<exists>x l'. remove r l = (Some x, l') \<and> x \<in> set (items l) \<and>
           set (items l') \<subseteq> set (items l) \<and> Suc (length (items l')) = length (items l) \<and>
           type l' = type l"
proof (cases "type l")
  case STACK
  with ne show ?thesis by (auto simp: remove_def dest: in_set_butlastD)
next
  case PRIORITY_QUEUE
  with ne show ?thesis by (auto simp: remove_def dest: in_set_butlastD)
next
  case QUEUE
  with ne show ?thesis by (cases "items l") (auto simp: remove_def)
next
  case RANDOM
  from ne have "0 < length (items l)" by simp
  from randomIndex_less [OF r this] have i: "randomIndex r (length (items l)) < length (items l)" .
  have "set (splice1 (randomIndex r (length (items l))) (items l)) \<subseteq> set (items l)"
    unfolding splice1_def by (auto dest: in_set_takeD in_set_dropD)
  moreover have "Suc (length (splice1 (randomIndex r (length (items l))) (items l))) =
      length (items l)"
    unfolding splice1_def using i by simp
  ultimately show ?thesis using RANDOM i by (simp add: remove_def Let_def)
next
  case UNKNOWN
  with t show ?thesis by simp
qed

lemma set_splice0: "set (splice0 i e xs) = insert e (set xs)"
proof -
  have "set (take i xs) \<union> set (drop i xs) = set (take i xs @ drop i xs)"
    by (simp only: set_append)
  then have "set (take i xs) \<union> set (drop i xs) = set xs"
    by (simp only: append_take_drop_id)
  then show ?thesis unfolding splice0_def by auto
qed

lemma length_splice0: "length (splice0 i e xs) = Suc (length xs)"
  unfolding splice0_def by (simp add: min_def)

lemma set_items_add: "set (items (add e l)) = insert e (set (items l))"
  by (simp add: add_def Let_def set_splice0)

lemma length_items_add: "length (items (add e l)) = Suc (length (items l))"
  by (simp add: add_def Let_def length_splice0)

lemma unaddedWork_set:
  assumes v: "v < length (waypoints g)" and n: "\<not> arrayGet xs v"
  shows "unaddedWork g (arraySetTrue xs v) + (8 * length (waypoints g ! v) + 2) = unaddedWork g xs"
proof -
  let ?c = "\<lambda>u. 8 * length (waypoints g ! u) + 2"
  let ?S = "{..<length (waypoints g)}"
  have fin: "finite ?S" and vin: "v \<in> ?S" using v by simp_all
  have "(\<Sum>u \<in> ?S. if arrayGet (arraySetTrue xs v) u then 0 else ?c u) =
        (\<Sum>u \<in> ?S - {v}. if arrayGet (arraySetTrue xs v) u then 0 else ?c u)"
    unfolding sum.remove [OF fin vin, of "\<lambda>u. if arrayGet (arraySetTrue xs v) u then 0 else ?c u"]
    by (simp add: arrayGet_arraySetTrue)
  also have "\<dots> = (\<Sum>u \<in> ?S - {v}. if arrayGet xs u then 0 else ?c u)"
    by (rule sum.cong) (auto simp: arrayGet_arraySetTrue)
  finally have a: "(\<Sum>u \<in> ?S. if arrayGet (arraySetTrue xs v) u then 0 else ?c u) =
           (\<Sum>u \<in> ?S - {v}. if arrayGet xs u then 0 else ?c u)" .
  have b: "(\<Sum>u \<in> ?S. if arrayGet xs u then 0 else ?c u) =
           ?c v + (\<Sum>u \<in> ?S - {v}. if arrayGet xs u then 0 else ?c u)"
    unfolding sum.remove [OF fin vin, of "\<lambda>u. if arrayGet xs u then 0 else ?c u"]
    using n by simp
  show ?thesis unfolding unaddedWork_def a b by simp
qed

lemma pathExists_step: "pathExists g sp v \<Longrightarrow> edgeTo g v w \<Longrightarrow> pathExists g sp w"
  unfolding pathExists_def by (rule rtranclp.rtrancl_into_rtrancl)

lemma wellFormed_edgeList:
  assumes "wellFormed g" and "v < length (waypoints g)" and "e \<in> set (waypoints g ! v)"
  shows "edgeListIndex e < length (graphEdges g)" "otherEnd v e < length (waypoints g)"
proof -
  from assms(2) have "waypoints g ! v \<in> set (waypoints g)" by simp
  with assms(1,3) have "edgeListIndex e < length (graphEdges g) \<and>
        v1 e < length (waypoints g) \<and> v2 e < length (waypoints g)"
    unfolding wellFormed_def by blast
  then show "edgeListIndex e < length (graphEdges g)" "otherEnd v e < length (waypoints g)"
    by (simp_all add: otherEnd_def)
qed

lemma wellFormed_graphEdges:
  assumes "wellFormed g" and "k < length (graphEdges g)"
  shows "v1 (graphEdges g ! k) < length (waypoints g)" "v2 (graphEdges g ! k) < length (waypoints g)"
proof -
  from assms(2) have "graphEdges g ! k \<in> set (graphEdges g)" by simp
  with assms(1) show "v1 (graphEdges g ! k) < length (waypoints g)"
    "v2 (graphEdges g ! k) < length (waypoints g)"
    unfolding wellFormed_def by blast+
qed

lemma edgeTo_otherEnd:
  "v < length (waypoints g) \<Longrightarrow> e \<in> set (waypoints g ! v) \<Longrightarrow> edgeTo g v (otherEnd v e)"
  by (simp add: edgeTo_def getAdjacentPoints_def)

text \<open>
  Each action of the search keeps the invariants and lowers the measure. The end
  vertex is never added, so that \<^verbatim>\<open>checkEndAdded\<close> goes on to \<^verbatim>\<open>checkLDVEmpty\<close>.
\<close>

lemma goodEntry_readable: "goodEntry g sp x \<Longrightarrow> entryReadable g x"
  by (simp add: goodEntry_def foundTableReadable_def)

lemma step_getPlaceFromLDV:
  assumes inv: "searchInv g sp ep s" and ph: "phaseInv g sp s"
    and na: "nextAction s = ''getPlaceFromLDV''"
  shows "stepOK g sp ep s (getPlaceFromLDV g s)"
proof -
  from ph na have ne: "items (ldv s) \<noteq> []" and ntl: "neighborsToLoop s = []"
    by (simp_all add: phaseInv_def phaseOf_simps isEmpty_def)
  from inv have t: "type (ldv s) \<noteq> UNKNOWN"
    and r: "fst (mathRandom s (randomCalls s)) < snd (mathRandom s (randomCalls s))"
    by (simp_all add: searchInv_def)
  from remove_nonempty [OF t ne r] obtain x l' where
    rm: "remove (mathRandom s (randomCalls s)) (ldv s) = (Some x, l')"
    and x: "x \<in> set (items (ldv s))" and sub: "set (items l') \<subseteq> set (items (ldv s))"
    and len: "Suc (length (items l')) = length (items (ldv s))" and ty: "type l' = type (ldv s)"
    by blast
  from inv x have gx: "goodEntry g sp x" by (simp add: searchInv_def)
  then have rd: "entryReadable g x" by (rule goodEntry_readable)
  from inv sub have gl: "\<forall>y \<in> set (items l'). goodEntry g sp y" by (auto simp: searchInv_def)
  show ?thesis
    unfolding stepOK_def getPlaceFromLDV_def using inv na ntl rm gx rd gl len [symmetric] ty
    by (cases "connection x")
      (simp_all add: Let_def searchInv_def phaseInv_def phaseOf_simps potential_def weight_simps
        visitingOK_def updateMarkerAndTable_def updatePolylineAndTable_def)
qed

lemma step_wasAdded:
  assumes inv: "searchInv g sp ep s" and ph: "phaseInv g sp s"
    and na: "nextAction s = ''wasAdded''"
  shows "stepOK g sp ep s (wasAdded s)"
proof -
  from ph na obtain item where v: "visiting s = Some item" and ntl: "neighborsToLoop s = []"
    by (auto simp: phaseInv_def phaseOf_simps visitingOK_def split: option.splits)
  from inv have sc: "stoppingCondition s = StopAtEnd" by (simp add: searchInv_def)
  show ?thesis
    unfolding stepOK_def wasAdded_def using inv na ntl v sc
    by (cases "connection item")
      (simp_all add: Let_def searchInv_def phaseInv_def phaseOf_simps potential_def weight_simps
        updateMarkerAndTable_def updatePolylineAndTable_def loopTop_def)
qed

lemma step_wasNotAdded:
  assumes inv: "searchInv g sp ep s" and ph: "phaseInv g sp s"
    and na: "nextAction s = ''wasNotAdded''"
  shows "stepOK g sp ep s (wasNotAdded g s)"
proof -
  from ph na obtain item where v: "visiting s = Some item" and ntl: "neighborsToLoop s = []"
    and gi: "goodEntry g sp item" and nadd: "\<not> arrayGet (addedV s) (vIndex item)"
    by (auto simp: phaseInv_def phaseOf_simps visitingOK_def split: option.splits)
  from inv have sc: "stoppingCondition s = StopAtEnd" by (simp add: searchInv_def)
  from gi have ft: "foundTableReadable g item" and pe: "pathExists g sp (vIndex item)"
    and vl: "vIndex item < length (waypoints g)"
    by (simp_all add: goodEntry_def foundTableReadable_def entryReadable_def)
  note uw = unaddedWork_set [OF vl nadd, symmetric]
  have added: "\<forall>u. arrayGet (arraySetTrue (addedV s) (vIndex item)) u \<longrightarrow> pathExists g sp u"
    using inv pe by (auto simp: arrayGet_arraySetTrue searchInv_def)
  show ?thesis
    unfolding stepOK_def wasNotAdded_def using inv na ntl v sc ft gi added uw
    by (cases "connection item")
      (simp_all add: Let_def searchInv_def phaseInv_def phaseOf_simps potential_def weight_simps
        visitingOK_def updateMarkerAndTable_def updatePolylineAndTable_def)
qed

lemma pushed_good:
  assumes wf: "wellFormed g" and vl: "v < length (waypoints g)" and pe: "pathExists g sp v"
  shows "\<forall>n \<in> set (map (\<lambda>(n, e). \<lparr> to = n, via = edgeListIndex e \<rparr>)
            (filter P (zip (map (otherEnd v) (waypoints g ! v)) (waypoints g ! v)))).
           goodNeighbor g sp n"
proof
  fix n
  assume "n \<in> set (map (\<lambda>(n, e). \<lparr> to = n, via = edgeListIndex e \<rparr>)
            (filter P (zip (map (otherEnd v) (waypoints g ! v)) (waypoints g ! v))))"
  then obtain w e where n: "n = \<lparr> to = w, via = edgeListIndex e \<rparr>"
    and we: "(w, e) \<in> set (zip (map (otherEnd v) (waypoints g ! v)) (waypoints g ! v))"
    by auto
  from we have e: "e \<in> set (waypoints g ! v)" by (rule set_zip_rightD)
  from we have w: "w = otherEnd v e" by (auto simp: in_set_zip)
  from wellFormed_edgeList [OF wf vl e] edgeTo_otherEnd [OF vl e] pe
  show "goodNeighbor g sp n" unfolding n w goodNeighbor_def
    by (auto intro: pathExists_step)
qed

lemma pushed_length:
  "length (map f (filter P (zip (map h es) es))) \<le> length es"
proof -
  have "length (filter P (zip (map h es) es)) \<le> length (zip (map h es) es)"
    by (rule length_filter_le)
  then show ?thesis by simp
qed

lemma step_checkNeighborsLoopTop:
  assumes inv: "searchInv g sp ep s" and ph: "phaseInv g sp s"
    and na: "nextAction s = ''checkNeighborsLoopTop''" and wf: "wellFormed g"
  shows "stepOK g sp ep s (checkNeighborsLoopTop g s)"
proof -
  from ph na obtain item where v: "visiting s = Some item" and ntl: "neighborsToLoop s = []"
    and gi: "goodEntry g sp item"
    by (auto simp: phaseInv_def phaseOf_simps visitingOK_def split: option.splits)
  from inv have sc: "stoppingCondition s = StopAtEnd" by (simp add: searchInv_def)
  from gi have pe: "pathExists g sp (vIndex item)" and vl: "vIndex item < length (waypoints g)"
    by (simp_all add: goodEntry_def foundTableReadable_def entryReadable_def)
  define pushed where "pushed = map (\<lambda>(n, e). \<lparr> to = n, via = edgeListIndex e \<rparr>)
      (filter (\<lambda>(n, e). Some (edgeListIndex e) \<noteq> connection item)
         (zip (map (otherEnd (vIndex item)) (waypoints g ! vIndex item)) (waypoints g ! vIndex item)))"
  have good: "\<forall>n \<in> set pushed. goodNeighbor g sp n"
    unfolding pushed_def by (rule pushed_good [OF wf vl pe])
  have len: "length pushed \<le> length (waypoints g ! vIndex item)"
    unfolding pushed_def by (rule pushed_length)
  have r: "checkNeighborsLoopTop g s =
      Inr (s\<lparr> neighborsToLoop := pushed,
              nextAction := (if pushed \<noteq> [] then ''checkNeighborsLoopIf'' else ''checkEndAdded'') \<rparr>)"
    using v vl ntl sc
    by (simp add: checkNeighborsLoopTop_def getAdjacentPoints_def Let_def pushed_def
        nextNeighborAction_def loopTop_def)
  show ?thesis
    unfolding r stepOK_def using inv na v gi good len
    by (simp add: searchInv_def phaseInv_def phaseOf_simps potential_def weight_simps
        visitingOK_def)
qed

lemma step_checkNeighborsLoopIf:
  assumes inv: "searchInv g sp ep s" and ph: "phaseInv g sp s"
    and na: "nextAction s = ''checkNeighborsLoopIf''"
  shows "stepOK g sp ep s (checkNeighborsLoopIf s)"
proof -
  from ph na have ne: "neighborsToLoop s \<noteq> []" and vo: "visitingOK g sp s"
    by (simp_all add: phaseInv_def phaseOf_simps)
  from ne obtain ys y where eq: "neighborsToLoop s = ys @ [y]"
    by (cases "neighborsToLoop s" rule: rev_cases) simp_all
  show ?thesis
    unfolding stepOK_def checkNeighborsLoopIf_def using inv na vo eq
    by (simp add: Let_def searchInv_def phaseInv_def phaseOf_simps potential_def weight_simps
        visitingOK_def nextNeighborOK_def)
qed

lemma step_checkNeighborsLoopIfTrue:
  assumes inv: "searchInv g sp ep s" and ph: "phaseInv g sp s"
    and na: "nextAction s = ''checkNeighborsLoopIfTrue''"
  shows "stepOK g sp ep s (checkNeighborsLoopIfTrue s)"
proof -
  from ph na obtain n where nn: "nextNeighbor s = Some n" and vo: "visitingOK g sp s"
    by (auto simp: phaseInv_def phaseOf_simps nextNeighborOK_def split: option.splits)
  from inv have sc: "stoppingCondition s = StopAtEnd" by (simp add: searchInv_def)
  show ?thesis
    unfolding stepOK_def checkNeighborsLoopIfTrue_def using inv na nn vo sc
    by (cases "neighborsToLoop s = []")
      (simp_all add: Let_def searchInv_def phaseInv_def phaseOf_simps potential_def weight_simps
        visitingOK_def updatePolylineAndTable_def nextNeighborAction_def loopTop_def)
qed

lemma step_checkNeighborsLoopIfFalse:
  assumes inv: "searchInv g sp ep s" and ph: "phaseInv g sp s"
    and na: "nextAction s = ''checkNeighborsLoopIfFalse''" and wf: "wellFormed g"
  shows "stepOK g sp ep s (checkNeighborsLoopIfFalse g vf s)"
proof -
  from ph na obtain n item where nn: "nextNeighbor s = Some n" and gn: "goodNeighbor g sp n"
    and v: "visiting s = Some item" and gi: "goodEntry g sp item"
    by (auto simp: phaseInv_def phaseOf_simps nextNeighborOK_def visitingOK_def
        split: option.splits)
  from inv have sc: "stoppingCondition s = StopAtEnd" by (simp add: searchInv_def)
  from gn have via: "via n < length (graphEdges g)" and tn: "to n < length (waypoints g)"
    and pe: "pathExists g sp (to n)" by (simp_all add: goodNeighbor_def)
  define entry where "entry = \<lparr> vIndex = to n, val = vf g item n, connection = Some (via n),
      fromVIndex = Some (if v1 (graphEdges g ! via n) = to n then v2 (graphEdges g ! via n)
                         else v1 (graphEdges g ! via n)) \<rparr>"
  have le: "LDVEntry g (to n) (vf g item n) (Some (via n)) = Inr entry"
    using via by (simp add: LDVEntry_def entry_def)
  have ge: "goodEntry g sp entry"
    using via tn pe wellFormed_graphEdges [OF wf via]
    by (simp add: goodEntry_def foundTableReadable_def entryReadable_def entry_def)
  have gl: "\<forall>x \<in> set (items (add entry (ldv s))). goodEntry g sp x"
    using inv ge by (simp add: set_items_add searchInv_def)
  show ?thesis
    unfolding stepOK_def checkNeighborsLoopIfFalse_def using inv na nn v gi sc le gl
    by (cases "neighborsToLoop s = []")
      (simp_all add: Let_def searchInv_def phaseInv_def phaseOf_simps potential_def weight_simps
        visitingOK_def updatePolylineAndTable_def updateMarkerAndTable_def
        nextNeighborAction_def loopTop_def length_items_add)
qed

lemma phaseInv_labels:
  assumes "phaseInv g sp s"
  shows "nextAction s = ''checkEndAdded'' \<or> nextAction s = ''checkLDVEmpty'' \<or>
         nextAction s = ''LDVEmpty'' \<or> nextAction s = ''getPlaceFromLDV'' \<or>
         nextAction s = ''checkAdded'' \<or> nextAction s = ''wasAdded'' \<or>
         nextAction s = ''checkNeighborsLoopTop'' \<or> nextAction s = ''wasNotAdded'' \<or>
         nextAction s = ''checkNeighborsLoopIf'' \<or> nextAction s = ''checkNeighborsLoopIfTrue'' \<or>
         nextAction s = ''checkNeighborsLoopIfFalse'' \<or> nextAction s = ''cleanup'' \<or>
         nextAction s = ''DONE''"
proof (rule ccontr)
  assume "\<not> ?thesis"
  then have "\<not> phaseOf g sp (nextAction s) s" unfolding phaseOf_def by simp
  with assms show False by (simp add: phaseInv_def)
qed

lemma step_oneAction:
  assumes inv: "searchInv g sp ep s" and ph: "phaseInv g sp s"
    and nd: "nextAction s \<noteq> ''DONE''" and wf: "wellFormed g" and np: "\<not> pathExists g sp ep"
  shows "stepOK g sp ep s (oneAction (avActions g vf) s)"
  using phaseInv_labels [OF ph] nd
proof (elim disjE)
  assume na: "nextAction s = ''checkEndAdded''"
  show ?thesis unfolding oneAction_label(4) [OF na] by (rule step_checkEndAdded [OF inv ph na np])
next
  assume na: "nextAction s = ''checkLDVEmpty''"
  show ?thesis unfolding oneAction_label(5) [OF na] by (rule step_checkLDVEmpty [OF inv ph na])
next
  assume na: "nextAction s = ''LDVEmpty''"
  show ?thesis unfolding oneAction_label(6) [OF na] by (rule step_LDVEmpty [OF inv ph na])
next
  assume na: "nextAction s = ''getPlaceFromLDV''"
  show ?thesis unfolding oneAction_label(7) [OF na] by (rule step_getPlaceFromLDV [OF inv ph na])
next
  assume na: "nextAction s = ''checkAdded''"
  show ?thesis unfolding oneAction_label(8) [OF na] by (rule step_checkAdded [OF inv ph na])
next
  assume na: "nextAction s = ''wasAdded''"
  show ?thesis unfolding oneAction_label(9) [OF na] by (rule step_wasAdded [OF inv ph na])
next
  assume na: "nextAction s = ''wasNotAdded''"
  show ?thesis unfolding oneAction_label(10) [OF na] by (rule step_wasNotAdded [OF inv ph na])
next
  assume na: "nextAction s = ''checkNeighborsLoopTop''"
  show ?thesis unfolding oneAction_label(11) [OF na]
    by (rule step_checkNeighborsLoopTop [OF inv ph na wf])
next
  assume na: "nextAction s = ''checkNeighborsLoopIf''"
  show ?thesis unfolding oneAction_label(12) [OF na]
    by (rule step_checkNeighborsLoopIf [OF inv ph na])
next
  assume na: "nextAction s = ''checkNeighborsLoopIfTrue''"
  show ?thesis unfolding oneAction_label(13) [OF na]
    by (rule step_checkNeighborsLoopIfTrue [OF inv ph na])
next
  assume na: "nextAction s = ''checkNeighborsLoopIfFalse''"
  show ?thesis unfolding oneAction_label(14) [OF na]
    by (rule step_checkNeighborsLoopIfFalse [OF inv ph na wf])
next
  assume na: "nextAction s = ''cleanup''"
  show ?thesis unfolding oneAction_label(19) [OF na] by (rule step_cleanup [OF inv ph na])
next
  assume "nextAction s = ''DONE''"
  with nd show ?thesis by simp
qed

lemma search_terminates:
  assumes wf: "wellFormed g" and np: "\<not> pathExists g sp ep"
  shows "searchInv g sp ep s \<Longrightarrow> phaseInv g sp s \<Longrightarrow>
         \<exists>n t. walkN n (avActions g vf) s = Inr t \<and> nextAction t = ''DONE'' \<and>
               stoppedBecause t = SearchFailed \<and> isEmpty (ldv t)"
proof (induction "potential g s" arbitrary: s rule: less_induct)
  case less
  show ?case
  proof (cases "nextAction s = ''DONE''")
    case True
    with less.prems(2) have "stoppedBecause s = SearchFailed \<and> isEmpty (ldv s)"
      by (simp add: phaseInv_def phaseOf_simps)
    with True have "walkN 0 (avActions g vf) s = Inr s \<and> nextAction s = ''DONE'' \<and>
        stoppedBecause s = SearchFailed \<and> isEmpty (ldv s)" by simp
    then show ?thesis by blast
  next
    case False
    from step_oneAction [OF less.prems False wf np, of vf] obtain u where
      u: "oneAction (avActions g vf) s = Inr u" and iu: "searchInv g sp ep u"
      and pu: "phaseInv g sp u" and lt: "potential g u < potential g s"
      by (auto simp: stepOK_def split: sum.splits)
    from less.hyps [OF lt iu pu] obtain n t where
      "walkN n (avActions g vf) u = Inr t" "nextAction t = ''DONE''"
      "stoppedBecause t = SearchFailed" "isEmpty (ldv t)" by blast
    with u False have "walkN (Suc n) (avActions g vf) s = Inr t \<and> nextAction t = ''DONE'' \<and>
        stoppedBecause t = SearchFailed \<and> isEmpty (ldv t)" by simp
    then show ?thesis by blast
  qed
qed

text \<open>\<^verbatim>\<open>START\<close> establishes the invariants, and the search ends.\<close>

lemma pathExists_refl: "pathExists g v v"
  by (simp add: pathExists_def)

lemma arrayGet_replicate_False: "\<not> arrayGet (replicate n False) v"
  by (simp add: arrayGet_def)

lemma START_establishes:
  assumes sc: "stoppingCondition p = StopAtEnd" and ntl: "neighborsToLoop p = []"
    and em: "items (ldv p) = []" and ty: "type (ldv p) \<noteq> UNKNOWN"
    and rnd: "\<forall>k. fst (mathRandom p k) < snd (mathRandom p k)"
    and sp: "startPoint p < length (waypoints g)" and ep: "endPoint p < length (waypoints g)"
  shows "\<exists>t. START g p = Inr t \<and> searchInv g (startPoint p) (endPoint p) t \<and>
             phaseInv g (startPoint p) t"
proof -
  define entry where "entry = \<lparr> vIndex = startPoint p, val = 0, connection = None,
      fromVIndex = None \<rparr>"
  have ge: "goodEntry g (startPoint p) entry"
    using sp by (simp add: goodEntry_def foundTableReadable_def entryReadable_def entry_def
        pathExists_refl)
  have gl: "\<forall>x \<in> set (items (add entry (ldv p))). goodEntry g (startPoint p) x"
    using ge em by (simp add: set_items_add)
  show ?thesis
    using sc ntl ty rnd gl sp ep
    by (simp add: START_def Let_def LDVEntry_def updateMarkerAndTable_def entry_def [symmetric]
        searchInv_def phaseInv_def phaseOf_simps arrayGet_replicate_False)
qed

lemma run_from_START:
  assumes na: "nextAction p = ''START''"
    and sc: "stoppingCondition p = StopAtEnd" and ntl: "neighborsToLoop p = []"
    and em: "items (ldv p) = []" and ty: "type (ldv p) \<noteq> UNKNOWN"
    and rnd: "\<forall>k. fst (mathRandom p k) < snd (mathRandom p k)"
    and sp: "startPoint p < length (waypoints g)" and ep: "endPoint p < length (waypoints g)"
    and wf: "wellFormed g" and np: "\<not> pathExists g (startPoint p) (endPoint p)"
  shows "\<exists>n t. walkN n (avActions g vf) p = Inr t \<and> nextAction t = ''DONE'' \<and>
               stoppedBecause t = SearchFailed \<and> isEmpty (ldv t)"
proof -
  from START_establishes [OF sc ntl em ty rnd sp ep] obtain u where
    u: "START g p = Inr u" and iu: "searchInv g (startPoint p) (endPoint p) u"
    and pu: "phaseInv g (startPoint p) u" by blast
  from search_terminates [OF wf np iu pu, of vf] obtain n t where
    t: "walkN n (avActions g vf) u = Inr t" "nextAction t = ''DONE''"
      "stoppedBecause t = SearchFailed" "isEmpty (ldv t)" by blast
  have "oneAction (avActions g vf) p = Inr u" using oneAction_label(1) [OF na] u by simp
  with na t have "walkN (Suc n) (avActions g vf) p = Inr t \<and> nextAction t = ''DONE'' \<and>
        stoppedBecause t = SearchFailed \<and> isEmpty (ldv t)" by simp
  then show ?thesis by blast
qed

lemma forget_eq_outcome:
  fixes a b :: traversal
  assumes "forget a = forget b"
  shows "stoppedBecause a = stoppedBecause b" "ldv a = ldv b"
proof -
  from assms have "stoppedBecause (forget a) = stoppedBecause (forget b)"
    "ldv (forget a) = ldv (forget b)" by simp_all
  then show "stoppedBecause a = stoppedBecause b" "ldv a = ldv b"
    by (simp_all add: forget_def)
qed

lemma startPausePressed_completion:
  assumes "status s = AV_SELECTED"
  shows "startPausePressed g av selected (s\<lparr> delay := 0 \<rparr>) =
         runToCompletion (avActions g (valForLDVEntry av))
           ((prepToStart av selected (s\<lparr> status := AV_RUNNING, delay := 0 \<rparr>))
              \<lparr> nextAction := ''START'' \<rparr>)"
proof -
  have st: "status (s\<lparr> delay := 0 \<rparr>) = AV_SELECTED" using assms by simp
  have e: "setStatus AV_RUNNING (s\<lparr> delay := 0 \<rparr>) = s\<lparr> status := AV_RUNNING, delay := 0 \<rparr>"
    using assms by (cases s) (simp add: setStatus_def)
  show ?thesis
    unfolding startPausePressed_def if_P [OF st] e
    by (simp add: nextStep_def paused_def prepToStart_def)
qed

lemma prepToStart_ldv:
  assumes "items (createLDV av) = []" and "type (createLDV av) \<noteq> UNKNOWN"
  shows "items (ldv (prepToStart av selected s)) = []"
    "type (ldv (prepToStart av selected s)) \<noteq> UNKNOWN"
  using assms by (simp_all add: prepToStart_def setComparator_def split: option.splits)

lemma closed_set_no_path:
  assumes a: "a \<in> S" and closed: "\<And>v w. v \<in> S \<Longrightarrow> edgeTo g v w \<Longrightarrow> w \<in> S" and b: "b \<notin> S"
  shows "\<not> pathExists g a b"
proof
  assume "pathExists g a b"
  then have "rtranclp (edgeTo g) a b" by (simp add: pathExists_def)
  then have "b \<in> S" using a by (induction rule: rtranclp_induct) (auto intro: closed)
  with b show False by simp
qed

lemma twoPairs_no_path: "\<not> pathExists twoPairs 0 2"
proof (rule closed_set_no_path [of 0 "{0, 1}"])
  fix v w :: nat
  assume "v \<in> {0, 1}" and "edgeTo twoPairs v w"
  then show "w \<in> {0, 1}"
    by (auto simp: edgeTo_def getAdjacentPoints_def twoPairs_def otherEnd_def)
qed simp_all

lemma twoPairs_wellFormed: "wellFormed twoPairs"
  by (simp add: wellFormed_def twoPairs_def)

text \<open>
  The search that begins with no neighbour pending. For a selected algorithm whose
  new list is empty and has a discipline, a well formed graph, a start and an end
  vertex among its waypoints with no path from the one to the other, random numbers
  below 1 and an empty list of neighbours to loop over: the run to completion and
  the run that performs one action for each callback both end at \<^verbatim>\<open>"DONE"\<close>, without
  a throw, with the outcome \<^verbatim>\<open>SearchFailed\<close> and an empty list.
\<close>

theorem stop_at_end_without_path_fails:
  assumes sel: "status s = AV_SELECTED" and t0: "timeouts s = 0"
    and ntl: "neighborsToLoop s = []"
    and rnd: "\<forall>k. fst (mathRandom s k) < snd (mathRandom s k)"
    and em: "items (createLDV av) = []" and ty: "type (createLDV av) \<noteq> UNKNOWN"
    and wf: "wellFormed g"
    and sp: "startPoint s < length (waypoints g)" and ep: "endPoint s < length (waypoints g)"
    and np: "\<not> pathExists g (startPoint s) (endPoint s)"
    and d: "d \<noteq> 0" "d \<noteq> - 1"
  shows "(\<exists>t. startPausePressed g av StopAtEnd (s\<lparr> delay := 0 \<rparr>) = Some (Inr t) \<and>
              nextAction t = ''DONE'' \<and> stoppedBecause t = SearchFailed \<and> isEmpty (ldv t)) \<and>
         (\<exists>t. actionByActionRun g av StopAtEnd d s = Some t \<and>
              nextAction t = ''DONE'' \<and> stoppedBecause t = SearchFailed \<and> isEmpty (ldv t))"
proof
  let ?acts = "avActions g (valForLDVEntry av)"
  define u where "u = (prepToStart av StopAtEnd (s\<lparr> status := AV_RUNNING, delay := 0 \<rparr>))
              \<lparr> nextAction := ''START'' \<rparr>"
  have "\<exists>n t. walkN n ?acts u = Inr t \<and> nextAction t = ''DONE'' \<and>
               stoppedBecause t = SearchFailed \<and> isEmpty (ldv t)"
  proof (rule run_from_START [OF _ _ _ _ _ _ _ _ wf])
    show "nextAction u = ''START''" by (simp add: u_def)
    show "stoppingCondition u = StopAtEnd" by (simp add: u_def prepToStart_def)
    show "neighborsToLoop u = []" using ntl by (simp add: u_def prepToStart_def)
    show "items (ldv u) = []" using prepToStart_ldv(1) [OF em ty] by (simp add: u_def)
    show "type (ldv u) \<noteq> UNKNOWN" using prepToStart_ldv(2) [OF em ty] by (simp add: u_def)
    show "\<forall>k. fst (mathRandom u k) < snd (mathRandom u k)"
      using rnd by (simp add: u_def prepToStart_def)
    show "startPoint u < length (waypoints g)" using sp by (simp add: u_def prepToStart_def)
    show "endPoint u < length (waypoints g)" using ep by (simp add: u_def prepToStart_def)
    show "\<not> pathExists g (startPoint u) (endPoint u)" using np by (simp add: u_def prepToStart_def)
  qed
  then obtain n t where w: "walkN n ?acts u = Inr t" and t: "nextAction t = ''DONE''"
    "stoppedBecause t = SearchFailed" "isEmpty (ldv t)" by blast
  from w t(1) have "finished (walkN n ?acts u)" by (simp add: finished_def)
  from completion_forward [OF avActions_independent this] w obtain r where
    r: "runToCompletion ?acts u = Some r" "mapResult forget r = mapResult forget (Inr t)"
    by auto
  from r(2) obtain t' where t': "r = Inr t'" "forget t' = forget t"
    using mapResult_Inr_iff [of forget r t] by blast
  from t'(2) t have "nextAction t' = ''DONE''" "stoppedBecause t' = SearchFailed"
    "isEmpty (ldv t')"
    using forget_eq_nextAction [OF t'(2)] forget_eq_outcome [OF t'(2)] by simp_all
  with r(1) t'(1) show "\<exists>t. startPausePressed g av StopAtEnd (s\<lparr> delay := 0 \<rparr>) = Some (Inr t) \<and>
              nextAction t = ''DONE'' \<and> stoppedBecause t = SearchFailed \<and> isEmpty (ldv t)"
    unfolding startPausePressed_completion [OF sel] u_def by simp
next
  let ?acts = "avActions g (valForLDVEntry av)"
  define p where "p = (prepToStart av StopAtEnd
      (s\<lparr> status := AV_RUNNING, delay := d, traceActions := True \<rparr>))\<lparr> nextAction := ''START'' \<rparr>"
  have "\<exists>n t. walkN n ?acts p = Inr t \<and> nextAction t = ''DONE'' \<and>
               stoppedBecause t = SearchFailed \<and> isEmpty (ldv t)"
  proof (rule run_from_START [OF _ _ _ _ _ _ _ _ wf])
    show "nextAction p = ''START''" by (simp add: p_def)
    show "stoppingCondition p = StopAtEnd" by (simp add: p_def prepToStart_def)
    show "neighborsToLoop p = []" using ntl by (simp add: p_def prepToStart_def)
    show "items (ldv p) = []" using prepToStart_ldv(1) [OF em ty] by (simp add: p_def)
    show "type (ldv p) \<noteq> UNKNOWN" using prepToStart_ldv(2) [OF em ty] by (simp add: p_def)
    show "\<forall>k. fst (mathRandom p k) < snd (mathRandom p k)"
      using rnd by (simp add: p_def prepToStart_def)
    show "startPoint p < length (waypoints g)" using sp by (simp add: p_def prepToStart_def)
    show "endPoint p < length (waypoints g)" using ep by (simp add: p_def prepToStart_def)
    show "\<not> pathExists g (startPoint p) (endPoint p)" using np by (simp add: p_def prepToStart_def)
  qed
  then obtain n t where w: "walkN n ?acts p = Inr t" and t: "nextAction t = ''DONE''"
    "stoppedBecause t = SearchFailed" "isEmpty (ldv t)" by blast
  from w t(1) have fin: "finished (walkN n ?acts p)" by (simp add: finished_def)
  have st: "stepping p" using sel t0 d by (simp add: p_def stepping_def prepToStart_def)
  have nd: "nextAction p \<noteq> ''DONE''" by (simp add: p_def)
  from stepping_forward [OF avActions_independent st nd fin] w
  have "runStepping ?acts p = Some (setStatus AV_COMPLETE t)" by (simp add: finish_def)
  with t show "\<exists>t. actionByActionRun g av StopAtEnd d s = Some t \<and>
              nextAction t = ''DONE'' \<and> stoppedBecause t = SearchFailed \<and> isEmpty (ldv t)"
    unfolding actionByActionRun_runStepping [OF sel] p_def by (simp add: setStatus_def)
qed

text \<open>The same on the graph with the edges 0-1 and 2-3, from vertex 0 to vertex 2.\<close>

theorem stop_at_end_without_path_twoPairs:
  "status noPathState = AV_SELECTED \<and> timeouts noPathState = 0 \<and>
   neighborsToLoop noPathState = [] \<and>
   (\<forall>k. fst (mathRandom noPathState k) < snd (mathRandom noPathState k)) \<and>
   items (createLDV (hdxGraphTraversalsAV ''BFS'')) = [] \<and>
   type (createLDV (hdxGraphTraversalsAV ''BFS'')) \<noteq> UNKNOWN \<and>
   wellFormed twoPairs \<and>
   startPoint noPathState < length (waypoints twoPairs) \<and>
   endPoint noPathState < length (waypoints twoPairs) \<and>
   \<not> pathExists twoPairs (startPoint noPathState) (endPoint noPathState) \<and>
   (\<exists>t. startPausePressed twoPairs (hdxGraphTraversalsAV ''BFS'') StopAtEnd
           (noPathState\<lparr> delay := 0 \<rparr>) = Some (Inr t) \<and>
        nextAction t = ''DONE'' \<and> stoppedBecause t = SearchFailed \<and> isEmpty (ldv t)) \<and>
   (\<exists>t. actionByActionRun twoPairs (hdxGraphTraversalsAV ''BFS'') StopAtEnd 50 noPathState = Some t \<and>
        nextAction t = ''DONE'' \<and> stoppedBecause t = SearchFailed \<and> isEmpty (ldv t)) \<and>
   map_option (\<lambda>t. (nextAction t, stoppedBecause t, items (ldv t), componentVList t))
     (completionRun twoPairs (hdxGraphTraversalsAV ''BFS'') StopAtEnd noPathState) =
   Some (''DONE'', SearchFailed, [], [0, 1])"
proof -
  have s: "status noPathState = AV_SELECTED" "timeouts noPathState = 0"
    "neighborsToLoop noPathState = []"
    "\<forall>k. fst (mathRandom noPathState k) < snd (mathRandom noPathState k)"
    "startPoint noPathState = 0" "endPoint noPathState = 2"
    by (simp_all add: noPathState_def hdxTraversalsSpanningAVCommon_def)
  have a: "items (createLDV (hdxGraphTraversalsAV ''BFS'')) = []"
    "type (createLDV (hdxGraphTraversalsAV ''BFS'')) \<noteq> UNKNOWN"
    by (simp_all add: hdxGraphTraversalsAV_def newHDXLinear_def)
  have l: "startPoint noPathState < length (waypoints twoPairs)"
    "endPoint noPathState < length (waypoints twoPairs)"
    unfolding s by (simp_all add: twoPairs_def)
  have np: "\<not> pathExists twoPairs (startPoint noPathState) (endPoint noPathState)"
    unfolding s by (rule twoPairs_no_path)
  have ev: "map_option (\<lambda>t. (nextAction t, stoppedBecause t, items (ldv t), componentVList t))
     (completionRun twoPairs (hdxGraphTraversalsAV ''BFS'') StopAtEnd noPathState) =
   Some (''DONE'', SearchFailed, [], [0, 1])"
    by code_simp
  from stop_at_end_without_path_fails
    [OF s(1) s(2) s(3) s(4) a twoPairs_wellFormed l np, of 50]
  show ?thesis using s(1-4) a twoPairs_wellFormed l np ev by simp
qed

text \<open>
  C4. In \<open>secondRun\<close> the search from vertex 0 to vertex 2 of the graph with the edges
  0-1 and 2-3 is selected, and the neighbour 2 by the edge 2-3 is still pending from
  the interrupted run. There is no path from 0 to 2. The run treats the pending
  neighbour among the neighbours of vertex 0, so that vertex 2 enters the list, is
  added, and \<^verbatim>\<open>checkEndAdded\<close> stops the search with the outcome \<^verbatim>\<open>FoundPath\<close>.
  \<^verbatim>\<open>cleanup\<close> then walks back from vertex 2 over the tree edges 0, 1, 2, finds no
  entry for vertex 3 and throws. The run to completion ends with this throw; in the
  run with one action for each callback no callback is left, the status stays
  running and the next action \<^verbatim>\<open>cleanup\<close>. Neither reaches \<^verbatim>\<open>"DONE"\<close>, and the
  outcome is not \<^verbatim>\<open>SearchFailed\<close>.
\<close>

theorem stale_neighbour_finds_unreachable_end:
  "status secondRun = AV_SELECTED \<and> timeouts secondRun = 0
   \<and> startPoint secondRun = 0 \<and> endPoint secondRun = 2
   \<and> neighborsToLoop secondRun = [\<lparr>to = 2, via = 1\<rparr>]
   \<and> \<not> pathExists twoPairs 0 2
   \<and> map_option (\<lambda>r. (isl r, nextAction (resultState r), stoppedBecause (resultState r),
                       map vIndex (treeEdges (resultState r)),
                       map fromVIndex (treeEdges (resultState r))))
         (startPausePressed twoPairs (hdxGraphTraversalsAV ''BFS'') StopAtEnd
            (secondRun\<lparr> delay := 0 \<rparr>))
       = Some (True, ''cleanup'', FoundPath, [0, 1, 2], [None, Some 0, Some 3])
   \<and> map_option (\<lambda>t. (nextAction t, stoppedBecause t, status t, timeouts t))
         (actionByActionRun twoPairs (hdxGraphTraversalsAV ''BFS'') StopAtEnd 50 secondRun)
       = Some (''cleanup'', FoundPath, AV_RUNNING, 0)"
proof -
  have a: "status secondRun = AV_SELECTED \<and> timeouts secondRun = 0
      \<and> startPoint secondRun = 0 \<and> endPoint secondRun = 2"
    by (simp add: secondRun_def)
  have n: "neighborsToLoop secondRun = [\<lparr>to = 2, via = 1\<rparr>]" by code_simp
  have c: "map_option (\<lambda>r. (isl r, nextAction (resultState r), stoppedBecause (resultState r),
                       map vIndex (treeEdges (resultState r)),
                       map fromVIndex (treeEdges (resultState r))))
         (startPausePressed twoPairs (hdxGraphTraversalsAV ''BFS'') StopAtEnd
            (secondRun\<lparr> delay := 0 \<rparr>))
       = Some (True, ''cleanup'', FoundPath, [0, 1, 2], [None, Some 0, Some 3])"
    by code_simp
  have b: "map_option (\<lambda>t. (nextAction t, stoppedBecause t, status t, timeouts t))
         (actionByActionRun twoPairs (hdxGraphTraversalsAV ''BFS'') StopAtEnd 50 secondRun)
       = Some (''cleanup'', FoundPath, AV_RUNNING, 0)"
    by code_simp
  from a n c b twoPairs_no_path show ?thesis by simp
qed

end
